theory Spec2Isabelle
  imports Complex_Main
begin

section \<open>The listener of yolo\_listener.py: data\<close>

text \<open>
  The script is one module with a global flag \<open>is_detecting\<close>, four helper functions,
  the MQTT callback \<open>on_message\<close> and the orchestrator \<open>start_yolo_detection\<close>.
  Everything it does goes through the camera, the detector child process and the file
  system, so the model has three ingredients:
  \<^item> \<open>env\<close>: what the outside world answers to each library call during one cycle
    (a value, or an exception);
  \<^item> \<open>world\<close>: what the program itself changes (the flag, the image files it writes
    and removes) and the sequence of calls and prints it has made;
  \<^item> the functions of the script, written over these with the combinators below.
  Timestamps are exact reals, text is ASCII, paths follow \<open>posixpath\<close>.
  \<open>print\<close>, \<open>time.sleep\<close>, \<open>time.time\<close>, \<open>cap.isOpened\<close>, \<open>cap.release\<close> and
  \<open>os.path.exists\<close> return normally; every other library call may raise, \<open>os.remove\<close>
  in the \<open>finally\<close> block included, and then the exception travels as the script lets
  it.
\<close>

datatype exn = CalledProcessError | ValueError | OSError | RuntimeError

text \<open>One constructor for each \<open>print\<close> of the script, with the values its f-string shows.\<close>

datatype msg =
    MsgAttemptCapture string
  | MsgCannotOpen string
  | MsgFrameSaved string
  | MsgReadFailed
  | MsgFatalCapture exn
  | MsgFolderError exn
  | MsgNoCrop
  | MsgNoLabels
  | MsgSkipEmpty string
  | MsgReadLabelFailed string exn
  | MsgReceived string string
  | MsgTriggerReceived
  | MsgAlreadyRunning
  | MsgNoFrame
  | MsgExecuting "string list"
  | MsgWaiting
  | MsgCompleted
  | MsgNoOutputFolder
  | MsgAnalyzing string
  | MsgPersonDetected
  | MsgEvidenceSaved string
  | MsgNoEvidence
  | MsgSendingAlert
  | MsgNotPerson
  | MsgSubprocessError exn
  | MsgUnhandled exn
  | MsgCleanedUp string
  | MsgStandby

text \<open>What the program does, in order: prints, library calls, assignments to the flag.\<close>

datatype event =
    Print msg
  | VideoCapture int
  | Sleep nat
  | CapRead
  | CapRelease
  | Imwrite string
  | Popen "string list"
  | ProcWait
  | Glob string
  | Getctime string
  | TimeTime
  | PathExists string
  | Listdir string
  | Getsize string
  | ReadFile string
  | Remove string
  | SetDetecting bool

record env =
  yolo_root :: string
  cv_VideoCapture :: "int \<Rightarrow> exn + bool"
  cv_read :: "exn + bool"
  cv_imwrite :: "string \<Rightarrow> exn + bool"
  popen :: "string list \<Rightarrow> exn + unit"
  proc_wait :: "exn + int"
  glob :: "string \<Rightarrow> exn + string list"
  getctime :: "string \<Rightarrow> exn + real"
  time_time :: real
  path_exists :: "string \<Rightarrow> bool"
  listdir :: "string \<Rightarrow> exn + string list"
  getsize :: "string \<Rightarrow> exn + nat"
  read_text :: "string \<Rightarrow> exn + string"
  os_remove :: "string \<Rightarrow> exn + unit"

text \<open>
  \<open>cv_VideoCapture n\<close>: the constructor raises, or gives a capture whose \<open>isOpened()\<close> is
  the boolean. \<open>cv_read\<close>: \<open>cap.read()\<close> raises, or its \<open>ret\<close>. \<open>cv_imwrite p\<close>: raises
  (nothing written), or returns, the boolean telling whether a file is at \<open>p\<close> by this
  write (the script ignores the returned value). \<open>proc_wait\<close>: the exit status.
  \<open>time_time\<close>: the clock during the scan of the output folders. \<open>path_exists\<close> answers
  for the detector's folders; the image files are in \<open>files\<close> below. \<open>os_remove p\<close>:
  \<open>os.remove\<close> raises (the file stays), or returns (the file is gone).
\<close>

record world =
  is_detecting :: bool
  files :: "string set"
  trace :: "event list"

record message =
  topic :: string
  payload_decode :: "exn + string"

subsection \<open>Computations that only read the environment\<close>

type_synonym 'a query = "event list \<times> (exn + 'a)"

definition retQ :: "'a \<Rightarrow> 'a query" where
  "retQ x = ([], Inr x)"

definition bindQ :: "'a query \<Rightarrow> ('a \<Rightarrow> 'b query) \<Rightarrow> 'b query" where
  "bindQ m f = (case m of
      (evs, Inl e) \<Rightarrow> (evs, Inl e)
    | (evs, Inr x) \<Rightarrow> (case f x of (evs', r) \<Rightarrow> (evs @ evs', r)))"

definition callQ :: "event \<Rightarrow> exn + 'a \<Rightarrow> 'a query" where
  "callQ ev outcome = ([ev], outcome)"

definition printQ :: "msg \<Rightarrow> unit query" where
  "printQ m = ([Print m], Inr ())"

definition try_exceptQ :: "'a query \<Rightarrow> (exn \<Rightarrow> 'a query) \<Rightarrow> 'a query" where
  "try_exceptQ m h = (case m of
      (evs, Inl e) \<Rightarrow> (case h e of (evs', r) \<Rightarrow> (evs @ evs', r))
    | (evs, Inr x) \<Rightarrow> (evs, Inr x))"

subsection \<open>Computations that change the world\<close>

type_synonym 'a io = "world \<Rightarrow> (exn + 'a) \<times> world"

definition ret :: "'a \<Rightarrow> 'a io" where
  "ret x = (\<lambda>w. (Inr x, w))"

definition bind :: "'a io \<Rightarrow> ('a \<Rightarrow> 'b io) \<Rightarrow> 'b io" where
  "bind m f = (\<lambda>w. case m w of
      (Inl e, w') \<Rightarrow> (Inl e, w')
    | (Inr x, w') \<Rightarrow> f x w')"

definition emit :: "event \<Rightarrow> unit io" where
  "emit ev = (\<lambda>w. (Inr (), w\<lparr>trace := trace w @ [ev]\<rparr>))"

definition call :: "event \<Rightarrow> exn + 'a \<Rightarrow> 'a io" where
  "call ev outcome = (\<lambda>w. (outcome, w\<lparr>trace := trace w @ [ev]\<rparr>))"

definition print :: "msg \<Rightarrow> unit io" where
  "print m = emit (Print m)"

definition query :: "'a query \<Rightarrow> 'a io" where
  "query q = (\<lambda>w. (snd q, w\<lparr>trace := trace w @ fst q\<rparr>))"

definition try_except :: "'a io \<Rightarrow> (exn \<Rightarrow> 'a io) \<Rightarrow> 'a io" where
  "try_except m h = (\<lambda>w. case m w of
      (Inl e, w') \<Rightarrow> h e w'
    | (Inr x, w') \<Rightarrow> (Inr x, w'))"

text \<open>\<open>try: ... finally: ...\<close>: the final block always runs; if it raises, that exception
  replaces the outcome of the body.\<close>

definition try_finally :: "'a io \<Rightarrow> unit io \<Rightarrow> 'a io" where
  "try_finally m fin = (\<lambda>w. case m w of
      (r, w') \<Rightarrow> (case fin w' of
          (Inl e, w'') \<Rightarrow> (Inl e, w'')
        | (Inr u, w'') \<Rightarrow> (r, w'')))"

definition lift :: "exn + 'a \<Rightarrow> 'a io" where
  "lift outcome = (\<lambda>w. (outcome, w))"

definition set_detecting :: "bool \<Rightarrow> unit io" where
  "set_detecting b = (\<lambda>w. (Inr (), w\<lparr>is_detecting := b, trace := trace w @ [SetDetecting b]\<rparr>))"

text \<open>The image files: \<open>cv2.imwrite\<close>, \<open>os.path.exists\<close> and \<open>os.remove\<close> on them.\<close>

definition imwrite :: "env \<Rightarrow> string \<Rightarrow> bool io" where
  "imwrite env path = (\<lambda>w. case cv_imwrite env path of
      Inl e \<Rightarrow> (Inl e, w\<lparr>trace := trace w @ [Imwrite path]\<rparr>)
    | Inr written \<Rightarrow>
        (Inr written, w\<lparr>files := (if written then insert path (files w) else files w),
                         trace := trace w @ [Imwrite path]\<rparr>))"

definition image_exists :: "string \<Rightarrow> bool io" where
  "image_exists path = (\<lambda>w. (Inr (path \<in> files w), w\<lparr>trace := trace w @ [PathExists path]\<rparr>))"

definition remove_image :: "env \<Rightarrow> string \<Rightarrow> unit io" where
  "remove_image env path = (\<lambda>w. case os_remove env path of
      Inl e \<Rightarrow> (Inl e, w\<lparr>trace := trace w @ [Remove path]\<rparr>)
    | Inr u \<Rightarrow> (Inr (), w\<lparr>files := files w - {path}, trace := trace w @ [Remove path]\<rparr>))"

section \<open>Configuration and library functions\<close>

definition AI_TRIGGER_TOPIC :: string where
  "AI_TRIGGER_TOPIC = ''/smart_sentinel/command/ai_trigger''"

definition CAMERA_INDEX :: string where
  "CAMERA_INDEX = ''1''"

definition PERSON_CLASS_ID :: string where
  "PERSON_CLASS_ID = ''0''"

text \<open>\<open>posixpath.join\<close> of two components.\<close>

definition path_join :: "string \<Rightarrow> string \<Rightarrow> string" where
  "path_join a b =
     (if b \<noteq> [] \<and> hd b = CHR ''/'' then b
      else if a = [] \<or> last a = CHR ''/'' then a @ b
      else a @ ''/'' @ b)"

definition TEMP_IMAGE_PATH :: "env \<Rightarrow> string" where
  "TEMP_IMAGE_PATH env = path_join (yolo_root env) ''temp_capture.jpg''"

definition endswith :: "string \<Rightarrow> string \<Rightarrow> bool" where
  "endswith s suf = (length suf \<le> length s \<and> drop (length s - length suf) s = suf)"

text \<open>\<open>int(s)\<close> on an ASCII string: surrounding whitespace (tab to carriage return, and
  the space), an optional sign, decimal
  digits with single underscores between them; anything else is a \<open>ValueError\<close>.\<close>

definition is_space :: "char \<Rightarrow> bool" where
  "is_space c = (let n = of_char c :: nat in (9 \<le> n \<and> n \<le> 13) \<or> n = 32)"

definition is_digit :: "char \<Rightarrow> bool" where
  "is_digit c = (let n = of_char c :: nat in 48 \<le> n \<and> n \<le> 57)"

definition strip :: "string \<Rightarrow> string" where
  "strip s = rev (dropWhile is_space (rev (dropWhile is_space s)))"

fun digits_ok :: "bool \<Rightarrow> string \<Rightarrow> bool" where
  "digits_ok prev_digit [] = prev_digit"
| "digits_ok prev_digit (c # cs) =
     (if is_digit c then digits_ok True cs
      else if c = CHR ''_'' \<and> prev_digit then digits_ok False cs
      else False)"

definition digits_value :: "string \<Rightarrow> int" where
  "digits_value s = foldl (\<lambda>acc c. 10 * acc + (int (of_char c) - 48)) 0 (filter is_digit s)"

definition py_int :: "string \<Rightarrow> exn + int" where
  "py_int s =
     (let t = strip s;
          neg = (t \<noteq> [] \<and> hd t = CHR ''-'');
          body = (if t \<noteq> [] \<and> (hd t = CHR ''-'' \<or> hd t = CHR ''+'') then tl t else t)
      in if digits_ok False body
         then Inr (if neg then - digits_value body else digits_value body)
         else Inl ValueError)"

text \<open>\<open>max(xs, key=k)\<close>: the first element with the largest key; \<open>ValueError\<close> on the
  empty list.\<close>

fun max_from :: "('a \<times> real) \<Rightarrow> ('a \<times> real) list \<Rightarrow> 'a" where
  "max_from m [] = fst m"
| "max_from m (x # xs) = max_from (if snd x > snd m then x else m) xs"

fun with_ctime :: "env \<Rightarrow> string list \<Rightarrow> (string \<times> real) list query" where
  "with_ctime env [] = retQ []"
| "with_ctime env (f # fs) =
     bindQ (callQ (Getctime f) (getctime env f)) (\<lambda>c.
     bindQ (with_ctime env fs) (\<lambda>rest. retQ ((f, c) # rest)))"

definition max_by_ctime :: "env \<Rightarrow> string list \<Rightarrow> string query" where
  "max_by_ctime env fs =
     bindQ (with_ctime env fs) (\<lambda>kv.
       case kv of [] \<Rightarrow> ([], Inl ValueError) | m # rest \<Rightarrow> retQ (max_from m rest))"

text \<open>\<open>re.search(r'\b' + re.escape(tok) + r'\b', content)\<close> for a non-empty token:
  \<open>\b\<close> holds where exactly one of the two neighbouring characters is a word character
  (letters, digits, underscore), the ends of the text counting as non-word.\<close>

definition is_word_char :: "char \<Rightarrow> bool" where
  "is_word_char c = (let n = of_char c :: nat in
     (48 \<le> n \<and> n \<le> 57) \<or> (65 \<le> n \<and> n \<le> 90) \<or> (97 \<le> n \<and> n \<le> 122) \<or> n = 95)"

definition next_is_word :: "string \<Rightarrow> bool" where
  "next_is_word s = (case s of [] \<Rightarrow> False | c # _ \<Rightarrow> is_word_char c)"

fun re_search_word :: "string \<Rightarrow> bool \<Rightarrow> string \<Rightarrow> bool" where
  "re_search_word tok prev [] = False"
| "re_search_word tok prev (c # cs) =
     ((take (length tok) (c # cs) = tok
        \<and> prev \<noteq> is_word_char (hd tok)
        \<and> is_word_char (last tok) \<noteq> next_is_word (drop (length tok) (c # cs)))
      \<or> re_search_word tok (is_word_char c) cs)"

section \<open>The helper functions\<close>

definition capture_single_frame :: "env \<Rightarrow> string \<Rightarrow> string \<Rightarrow> bool io" where
  "capture_single_frame env index path =
     bind (print (MsgAttemptCapture index)) (\<lambda>_.
     try_except
       (bind (lift (py_int index)) (\<lambda>n.
        bind (call (VideoCapture n) (cv_VideoCapture env n)) (\<lambda>opened.
        if \<not> opened then
          bind (print (MsgCannotOpen index)) (\<lambda>_. ret False)
        else
          bind (emit (Sleep 1500)) (\<lambda>_.
          bind (call CapRead (cv_read env)) (\<lambda>r.
          bind (emit CapRelease) (\<lambda>_.
          if r then
            bind (imwrite env path) (\<lambda>_.
            bind (print (MsgFrameSaved path)) (\<lambda>_. ret True))
          else
            bind (print MsgReadFailed) (\<lambda>_. ret False)))))))
       (\<lambda>e. bind (print (MsgFatalCapture e)) (\<lambda>_. ret False)))"

fun recent_of :: "env \<Rightarrow> string list \<Rightarrow> string list query" where
  "recent_of env [] = retQ []"
| "recent_of env (f # fs) =
     bindQ (callQ (Getctime f) (getctime env f)) (\<lambda>c.
     bindQ (callQ TimeTime (Inr (time_time env))) (\<lambda>now.
     bindQ (recent_of env fs) (\<lambda>rest.
     retQ (if c > now - 30 then f # rest else rest))))"

definition get_latest_exp_folder :: "env \<Rightarrow> string option query" where
  "get_latest_exp_folder env =
     try_exceptQ
       (let search_path =
              path_join (path_join (path_join (yolo_root env) ''runs'') ''detect'') ''exp*''
        in bindQ (callQ (Glob search_path) (glob env search_path)) (\<lambda>list_of_files.
           if list_of_files = [] then retQ None
           else bindQ (recent_of env list_of_files) (\<lambda>recent_files.
                if recent_files = [] then
                  bindQ (max_by_ctime env list_of_files) (\<lambda>f. retQ (Some f))
                else
                  bindQ (max_by_ctime env recent_files) (\<lambda>f. retQ (Some f)))))
       (\<lambda>e. bindQ (printQ (MsgFolderError e)) (\<lambda>_. retQ None))"

definition get_saved_evidence_path :: "env \<Rightarrow> string \<Rightarrow> string option query" where
  "get_saved_evidence_path env exp_folder =
     (let crops_dir = path_join (path_join exp_folder ''crops'') ''person'';
          not_found = bindQ (printQ MsgNoCrop) (\<lambda>_. retQ None)
      in bindQ (callQ (PathExists crops_dir) (Inr (path_exists env crops_dir))) (\<lambda>ex.
         if ex then
           bindQ (callQ (Glob (path_join crops_dir ''*.jpg''))
                        (glob env (path_join crops_dir ''*.jpg''))) (\<lambda>list_of_crops.
           if list_of_crops \<noteq> [] then
             bindQ (max_by_ctime env list_of_crops) (\<lambda>f. retQ (Some f))
           else not_found)
         else not_found))"

text \<open>The body of the \<open>for\<close> loop of \<open>check_for_person\<close> for one file name: \<open>Some True\<close> is
  its \<open>return True\<close>, \<open>None\<close> is going on to the next name (by \<open>continue\<close>, by falling
  through, or after the handler has printed the error).\<close>

definition check_label_file :: "env \<Rightarrow> string \<Rightarrow> string \<Rightarrow> bool option query" where
  "check_label_file env labels_dir label_file =
     (if endswith label_file ''.txt'' then
        try_exceptQ
          (let file_path = path_join labels_dir label_file
           in bindQ (callQ (Getsize file_path) (getsize env file_path)) (\<lambda>sz.
              if sz = 0 then
                bindQ (printQ (MsgSkipEmpty label_file)) (\<lambda>_. retQ None)
              else
                bindQ (callQ (ReadFile file_path) (read_text env file_path)) (\<lambda>content.
                if re_search_word PERSON_CLASS_ID False content then retQ (Some True)
                else retQ None)))
          (\<lambda>e. bindQ (printQ (MsgReadLabelFailed label_file e)) (\<lambda>_. retQ None))
      else retQ None)"

fun check_label_files :: "env \<Rightarrow> string \<Rightarrow> string list \<Rightarrow> bool query" where
  "check_label_files env labels_dir [] = retQ False"
| "check_label_files env labels_dir (label_file # rest) =
     bindQ (check_label_file env labels_dir label_file) (\<lambda>r.
     case r of Some b \<Rightarrow> retQ b | None \<Rightarrow> check_label_files env labels_dir rest)"

definition check_for_person :: "env \<Rightarrow> string \<Rightarrow> bool query" where
  "check_for_person env exp_folder =
     (let labels_dir = path_join exp_folder ''labels''
      in bindQ (callQ (PathExists labels_dir) (Inr (path_exists env labels_dir))) (\<lambda>ex.
         if \<not> ex then
           bindQ (printQ MsgNoLabels) (\<lambda>_. retQ False)
         else
           bindQ (callQ (Listdir labels_dir) (listdir env labels_dir)) (\<lambda>names.
           check_label_files env labels_dir names)))"

section \<open>The orchestrator and the callback\<close>

definition YOLO_COMMAND :: "env \<Rightarrow> string list" where
  "YOLO_COMMAND env =
     [''python'', ''detect.py'', ''--weights'', ''yolov5s.pt'',
      ''--source'', TEMP_IMAGE_PATH env, ''--conf'', ''0.40'',
      ''--save-crop'', ''--save-txt'', ''--nosave'', ''--hide-conf'', ''--hide-labels'']"

text \<open>The \<open>try\<close> block of \<open>start_yolo_detection\<close>. The value of \<open>process.wait()\<close> is
  dropped, as in the script.\<close>

definition detect_and_classify :: "env \<Rightarrow> unit io" where
  "detect_and_classify env =
     bind (print (MsgExecuting (YOLO_COMMAND env))) (\<lambda>_.
     bind (call (Popen (YOLO_COMMAND env)) (popen env (YOLO_COMMAND env))) (\<lambda>_.
     bind (print MsgWaiting) (\<lambda>_.
     bind (call ProcWait (proc_wait env)) (\<lambda>status.
     bind (print MsgCompleted) (\<lambda>_.
     bind (emit (Sleep 500)) (\<lambda>_.
     bind (query (get_latest_exp_folder env)) (\<lambda>latest_folder.
     case latest_folder of
       None \<Rightarrow> print MsgNoOutputFolder
     | Some folder \<Rightarrow>
         if folder = [] then print MsgNoOutputFolder
         else
           bind (print (MsgAnalyzing folder)) (\<lambda>_.
           bind (query (check_for_person env folder)) (\<lambda>person.
           if person then
             bind (query (get_saved_evidence_path env folder)) (\<lambda>evidence_path.
             bind (print MsgPersonDetected) (\<lambda>_.
             bind (case evidence_path of
                     None \<Rightarrow> print MsgNoEvidence
                   | Some p \<Rightarrow> if p = [] then print MsgNoEvidence else print (MsgEvidenceSaved p)) (\<lambda>_.
             print MsgSendingAlert)))
           else print MsgNotPerson)))))))))"

definition handle_error :: "exn \<Rightarrow> unit io" where
  "handle_error e = (case e of
       CalledProcessError \<Rightarrow> print (MsgSubprocessError e)
     | _ \<Rightarrow> print (MsgUnhandled e))"

text \<open>Step 5 of the \<open>finally\<close> block: remove the temporary image if it is there.\<close>

definition cleanup_temp :: "env \<Rightarrow> unit io" where
  "cleanup_temp env =
     bind (image_exists (TEMP_IMAGE_PATH env)) (\<lambda>ex.
     if ex then
       bind (remove_image env (TEMP_IMAGE_PATH env)) (\<lambda>_.
       print (MsgCleanedUp (TEMP_IMAGE_PATH env)))
     else ret ())"

definition start_yolo_detection :: "env \<Rightarrow> unit io" where
  "start_yolo_detection env =
     bind (capture_single_frame env CAMERA_INDEX (TEMP_IMAGE_PATH env)) (\<lambda>captured.
     if \<not> captured then
       bind (set_detecting False) (\<lambda>_. print MsgNoFrame)
     else
       try_finally
         (try_except (detect_and_classify env) handle_error)
         (bind (cleanup_temp env) (\<lambda>_.
          bind (set_detecting False) (\<lambda>_.
          print MsgStandby))))"

definition on_message :: "env \<Rightarrow> message \<Rightarrow> unit io" where
  "on_message env m =
     bind (lift (payload_decode m)) (\<lambda>payload_str.
     bind (print (MsgReceived (topic m) payload_str)) (\<lambda>_.
     if topic m = AI_TRIGGER_TOPIC \<and> payload_str = ''ACTIVATE'' then
       (\<lambda>w. if \<not> is_detecting w then
              bind (print MsgTriggerReceived) (\<lambda>_.
              bind (set_detecting True) (\<lambda>_.
              start_yolo_detection env)) w
            else print MsgAlreadyRunning w)
     else ret ()))"

section \<open>The listener under overlapping deliveries\<close>

text \<open>
  \<open>on_message\<close> above runs a cycle to its end before it returns. To speak of a trigger
  that arrives while a cycle is active, the callback is cut where the script cuts it:
  \<open>accept_trigger\<close> is \<open>on_message\<close> up to the call of \<open>start_yolo_detection\<close> (it tells
  whether the call is made), and a started cycle advances through the steps of
  \<open>start_yolo_detection\<close> one at a time, deliveries falling between any two of them.
\<close>

definition accept_trigger :: "message \<Rightarrow> bool io" where
  "accept_trigger m =
     bind (lift (payload_decode m)) (\<lambda>payload_str.
     bind (print (MsgReceived (topic m) payload_str)) (\<lambda>_.
     if topic m = AI_TRIGGER_TOPIC \<and> payload_str = ''ACTIVATE'' then
       (\<lambda>w. if \<not> is_detecting w then
              bind (print MsgTriggerReceived) (\<lambda>_.
              bind (set_detecting True) (\<lambda>_.
              ret True)) w
            else bind (print MsgAlreadyRunning) (\<lambda>_. ret False) w)
     else ret False))"

datatype phase = Capturing | Aborting | Detecting | CleaningUp | Releasing | Crashed

text \<open>One step of a cycle; \<open>None\<close> when it was the last one. When the removal of the
  image raises, the exception leaves \<open>start_yolo_detection\<close> and the callback with the
  flag still set: the cycle is \<open>Crashed\<close>, it does nothing any more and never releases
  the flag.\<close>

fun advance :: "env \<Rightarrow> phase \<Rightarrow> world \<Rightarrow> phase option \<times> world" where
  "advance env Capturing w =
     (let (r, w') = capture_single_frame env CAMERA_INDEX (TEMP_IMAGE_PATH env) w
      in (Some (if r = Inr True then Detecting else Aborting), w'))"
| "advance env Aborting w =
     (None, snd (bind (set_detecting False) (\<lambda>_. print MsgNoFrame) w))"
| "advance env Detecting w =
     (Some CleaningUp, snd (try_except (detect_and_classify env) handle_error w))"
| "advance env CleaningUp w =
     (let (r, w') = cleanup_temp env w
      in (Some (if r = Inr () then Releasing else Crashed), w'))"
| "advance env Releasing w =
     (None, snd (bind (set_detecting False) (\<lambda>_. print MsgStandby) w))"
| "advance env Crashed w = (Some Crashed, w)"

fun run_cycle :: "nat \<Rightarrow> env \<Rightarrow> phase \<Rightarrow> world \<Rightarrow> world" where
  "run_cycle 0 env ph w = w"
| "run_cycle (Suc n) env ph w =
     (case advance env ph w of
        (None, w') \<Rightarrow> w'
      | (Some ph', w') \<Rightarrow> run_cycle n env ph' w')"

record sys =
  wld :: world
  cycles :: "(env \<times> phase) list"

datatype occurrence = Deliver env message | Advance nat

fun step :: "sys \<Rightarrow> occurrence \<Rightarrow> sys" where
  "step s (Deliver env m) =
     (let (r, w') = accept_trigger m (wld s)
      in if r = Inr True then \<lparr>wld = w', cycles = cycles s @ [(env, Capturing)]\<rparr>
         else \<lparr>wld = w', cycles = cycles s\<rparr>)"
| "step s (Advance i) =
     (if i < length (cycles s) then
        (let (env, ph) = cycles s ! i;
             (next, w') = advance env ph (wld s)
         in case next of
              Some ph' \<Rightarrow> \<lparr>wld = w', cycles = (cycles s)[i := (env, ph')]\<rparr>
            | None \<Rightarrow> \<lparr>wld = w', cycles = take i (cycles s) @ drop (Suc i) (cycles s)\<rparr>)
      else s)"

definition run :: "sys \<Rightarrow> occurrence list \<Rightarrow> sys" where
  "run s os = foldl step s os"

section \<open>Notions used in the statements\<close>

text \<open>When the capture reports success: every call returned, the device was open and a
  frame was read.\<close>

definition capture_ok :: "env \<Rightarrow> string \<Rightarrow> string \<Rightarrow> bool" where
  "capture_ok env index path =
     (case py_int index of Inl e \<Rightarrow> False | Inr n \<Rightarrow>
       (case cv_VideoCapture env n of Inl e \<Rightarrow> False | Inr opened \<Rightarrow> opened \<and>
         (case cv_read env of Inl e \<Rightarrow> False | Inr r \<Rightarrow> r \<and>
           (case cv_imwrite env path of Inl e \<Rightarrow> False | Inr written \<Rightarrow> True))))"

text \<open>Kinds of events: those of the capture, those of the three functions that read the
  detector's output, and those the \<open>try\<close> block with its handlers can add.\<close>

fun capture_event :: "event \<Rightarrow> bool" where
  "capture_event (Print (MsgAttemptCapture i)) = True"
| "capture_event (Print (MsgCannotOpen i)) = True"
| "capture_event (Print (MsgFrameSaved p)) = True"
| "capture_event (Print MsgReadFailed) = True"
| "capture_event (Print (MsgFatalCapture e)) = True"
| "capture_event (VideoCapture n) = True"
| "capture_event (Sleep n) = True"
| "capture_event CapRead = True"
| "capture_event CapRelease = True"
| "capture_event (Imwrite p) = True"
| "capture_event e = False"

fun query_event :: "event \<Rightarrow> bool" where
  "query_event (Glob p) = True"
| "query_event (Getctime p) = True"
| "query_event TimeTime = True"
| "query_event (PathExists p) = True"
| "query_event (Listdir p) = True"
| "query_event (Getsize p) = True"
| "query_event (ReadFile p) = True"
| "query_event (Print (MsgFolderError e)) = True"
| "query_event (Print MsgNoCrop) = True"
| "query_event (Print MsgNoLabels) = True"
| "query_event (Print (MsgSkipEmpty n)) = True"
| "query_event (Print (MsgReadLabelFailed n e)) = True"
| "query_event e = False"

fun stage_event :: "event \<Rightarrow> bool" where
  "stage_event (SetDetecting b) = False"
| "stage_event (Remove p) = False"
| "stage_event (Imwrite p) = False"
| "stage_event e = True"

fun is_print :: "event \<Rightarrow> bool" where
  "is_print (Print m) = True"
| "is_print e = False"

fun is_flag :: "event \<Rightarrow> bool" where
  "is_flag (SetDetecting b) = True"
| "is_flag e = False"

fun is_launch :: "event \<Rightarrow> bool" where
  "is_launch (Popen c) = True"
| "is_launch e = False"

fun is_alert :: "event \<Rightarrow> bool" where
  "is_alert (Print MsgPersonDetected) = True"
| "is_alert (Print (MsgEvidenceSaved p)) = True"
| "is_alert (Print MsgNoEvidence) = True"
| "is_alert (Print MsgSendingAlert) = True"
| "is_alert e = False"

definition emitsQ :: "(event \<Rightarrow> bool) \<Rightarrow> 'a query \<Rightarrow> bool" where
  "emitsQ P q = list_all P (fst q)"

text \<open>An action that does the same in every world: it gives one outcome and adds one
  sequence of events, of one kind, to the trace, and changes nothing else.\<close>

definition emits :: "(event \<Rightarrow> bool) \<Rightarrow> 'a io \<Rightarrow> bool" where
  "emits P m = (\<exists>r evs. list_all P evs \<and> (\<forall>w. m w = (r, w\<lparr>trace := trace w @ evs\<rparr>)))"

text \<open>The worlds a cycle goes through.\<close>

definition after_capture :: "env \<Rightarrow> world \<Rightarrow> world" where
  "after_capture env w = snd (capture_single_frame env CAMERA_INDEX (TEMP_IMAGE_PATH env) w)"

definition after_stages :: "env \<Rightarrow> world \<Rightarrow> world" where
  "after_stages env w =
     snd (try_except (detect_and_classify env) handle_error (after_capture env w))"

definition after_cleanup :: "env \<Rightarrow> world \<Rightarrow> world" where
  "after_cleanup env w = snd (cleanup_temp env (after_stages env w))"

text \<open>The cycle reaches \<open>os.remove\<close> and the call raises.\<close>

definition removal_raises :: "env \<Rightarrow> world \<Rightarrow> bool" where
  "removal_raises env w =
     (capture_ok env CAMERA_INDEX (TEMP_IMAGE_PATH env)
      \<and> TEMP_IMAGE_PATH env \<in> files (after_stages env w)
      \<and> isl (os_remove env (TEMP_IMAGE_PATH env)))"

text \<open>The events a computation adds to the trace of \<open>w\<close>.\<close>

definition new_events :: "world \<Rightarrow> world \<Rightarrow> event list" where
  "new_events w w' = drop (length (trace w)) (trace w')"

section \<open>Concrete situations\<close>

text \<open>An idle service on a disk without the temporary image, the trigger message, and a
  run in which everything works: the camera delivers a frame, the detector exits with
  status 0 and has left a folder created 5 seconds ago beside one created 45 seconds
  ago, with a label file that reports a person and one crop.\<close>

definition world_idle :: world where
  "world_idle = \<lparr>is_detecting = False, files = {}, trace = []\<rparr>"

definition trigger :: message where
  "trigger = \<lparr>topic = AI_TRIGGER_TOPIC, payload_decode = Inr ''ACTIVATE''\<rparr>"

definition env_person :: env where
  "env_person = \<lparr>
     yolo_root = ''/opt/yolov5'',
     cv_VideoCapture = (\<lambda>n. Inr True),
     cv_read = Inr True,
     cv_imwrite = (\<lambda>p. Inr True),
     popen = (\<lambda>c. Inr ()),
     proc_wait = Inr 0,
     glob = (\<lambda>p.
       if p = ''/opt/yolov5/runs/detect/exp*''
       then Inr [''/opt/yolov5/runs/detect/exp'', ''/opt/yolov5/runs/detect/exp2'']
       else if p = ''/opt/yolov5/runs/detect/exp2/crops/person/*.jpg''
       then Inr [''/opt/yolov5/runs/detect/exp2/crops/person/temp_capture.jpg'']
       else Inr []),
     getctime = (\<lambda>p. if p = ''/opt/yolov5/runs/detect/exp'' then Inr 955 else Inr 995),
     time_time = 1000,
     path_exists = (\<lambda>p. True),
     listdir = (\<lambda>p. Inr [''temp_capture.txt'']),
     getsize = (\<lambda>p. Inr 14),
     read_text = (\<lambda>p. Inr ''0 10 20 30 40''),
     os_remove = (\<lambda>p. Inr ())\<rparr>"

text \<open>Reading the events of one cycle: \<open>reset_last\<close> says that the first assignment to
  the flag is the reset to \<open>False\<close> and that only prints follow it; \<open>reset_after_cleanup\<close>
  says in addition that the cleanup's look for the temporary image stands before it.\<close>

definition reset_last :: "event list \<Rightarrow> bool" where
  "reset_last evs =
     (case dropWhile (\<lambda>e. \<not> is_flag e) evs of
        [] \<Rightarrow> False
      | r # post \<Rightarrow> r = SetDetecting False \<and> list_all is_print post)"

definition reset_after_cleanup :: "string \<Rightarrow> event list \<Rightarrow> bool" where
  "reset_after_cleanup temp evs =
     (reset_last evs \<and> PathExists temp \<in> set (takeWhile (\<lambda>e. \<not> is_flag e) evs))"

text \<open>The same run on a disk that still holds a temporary image (left by a process that
  was killed), with the camera in use by another application.\<close>

definition env_busy :: env where
  "env_busy = env_person\<lparr>cv_VideoCapture := (\<lambda>n. Inr False)\<rparr>"

text \<open>The run in which everything works up to the cleanup, where the image cannot be
  removed (it is held open by another program).\<close>

definition env_locked :: env where
  "env_locked = env_person\<lparr>os_remove := (\<lambda>p. Inl OSError)\<rparr>"

definition world_stale :: world where
  "world_stale = \<lparr>is_detecting = True, files = {TEMP_IMAGE_PATH env_busy}, trace = []\<rparr>"

text \<open>The annotation rule in the words of the specification: some line of the text has
  the class identifier as its first token.\<close>

fun split_lines :: "string \<Rightarrow> string list" where
  "split_lines [] = [[]]"
| "split_lines (c # cs) =
     (if c = CHR 0x0A then [] # split_lines cs
      else (case split_lines cs of l # ls \<Rightarrow> (c # l) # ls | [] \<Rightarrow> [[c]]))"

definition class_at_line_start :: "string \<Rightarrow> string \<Rightarrow> bool" where
  "class_at_line_start tok content =
     list_ex (\<lambda>line. takeWhile (\<lambda>c. \<not> is_space c) line = tok) (split_lines content)"

text \<open>A run in which the detector found a dog (class 16) and no person, and one in which
  the label file is empty.\<close>

definition env_dog :: env where
  "env_dog = env_person\<lparr>getsize := (\<lambda>p. Inr 23),
                          read_text := (\<lambda>p. Inr ''16 0.5 0.5 0.25 0.25'')\<rparr>"

definition env_empty_label :: env where
  "env_empty_label = env_person\<lparr>getsize := (\<lambda>p. Inr 0), read_text := (\<lambda>p. Inr [])\<rparr>"

text \<open>A run in which the detector crashes (exit status 1) and writes nothing; the only
  output folder is ten minutes old and reports a person.\<close>

definition env_crash :: env where
  "env_crash = env_person\<lparr>
     proc_wait := Inr 1,
     glob := (\<lambda>p.
       if p = ''/opt/yolov5/runs/detect/exp*'' then Inr [''/opt/yolov5/runs/detect/exp'']
       else if p = ''/opt/yolov5/runs/detect/exp/crops/person/*.jpg''
       then Inr [''/opt/yolov5/runs/detect/exp/crops/person/temp_capture.jpg'']
       else Inr []),
     getctime := (\<lambda>p. Inr 400)\<rparr>"

text \<open>For the output folders: the pattern that is globbed, the creation time of a
  candidate whose \<open>getctime\<close> returns, and being within the 30 seconds before the clock
  reading.\<close>

definition exp_pattern :: "env \<Rightarrow> string" where
  "exp_pattern env =
     path_join (path_join (path_join (yolo_root env) ''runs'') ''detect'') ''exp*''"

definition ctime_of :: "env \<Rightarrow> string \<Rightarrow> real" where
  "ctime_of env f = (case getctime env f of Inl e \<Rightarrow> 0 | Inr c \<Rightarrow> c)"

definition recent :: "env \<Rightarrow> string \<Rightarrow> bool" where
  "recent env f = (ctime_of env f > time_time env - 30)"

text \<open>A run in which the folders cannot be examined any more when their creation time
  is asked for.\<close>

definition env_vanished :: env where
  "env_vanished = env_person\<lparr>getctime := (\<lambda>p. Inl OSError)\<rparr>"

text \<open>Single flight: at most one cycle has been started and has not released the flag,
  and the flag is set exactly while there is one. (A cycle that crashed in its cleanup
  stays in the list: it holds the flag for ever.) Two systems \<open>agree\<close> when they differ
  at most in what has been logged.\<close>

definition idle :: "world \<Rightarrow> sys" where
  "idle w = \<lparr>wld = w, cycles = []\<rparr>"

definition single_flight :: "sys \<Rightarrow> bool" where
  "single_flight s = (length (cycles s) \<le> 1 \<and> is_detecting (wld s) = (cycles s \<noteq> []))"

definition agree :: "sys \<Rightarrow> sys \<Rightarrow> bool" where
  "agree s t = (cycles s = cycles t \<and> is_detecting (wld s) = is_detecting (wld t)
                \<and> files (wld s) = files (wld t))"

section \<open>Auxiliary facts\<close>

lemmas io_defs = ret_def bind_def emit_def call_def print_def query_def try_except_def
  try_finally_def set_detecting_def lift_def imwrite_def image_exists_def remove_image_def

lemmas q_defs = retQ_def bindQ_def callQ_def printQ_def try_exceptQ_def

lemmas eval_defs = io_defs q_defs capture_single_frame_def get_latest_exp_folder_def
  get_saved_evidence_path_def check_label_file_def check_for_person_def
  detect_and_classify_def handle_error_def cleanup_temp_def start_yolo_detection_def
  YOLO_COMMAND_def max_by_ctime_def
  CAMERA_INDEX_def PERSON_CLASS_ID_def TEMP_IMAGE_PATH_def path_join_def
  endswith_def py_int_def strip_def is_space_def is_digit_def digits_value_def
  is_word_char_def next_is_word_def Let_def

subsection \<open>The capture\<close>

lemma capture_result:
  "fst (capture_single_frame env index path w) = Inr (capture_ok env index path)"
  by (auto simp: capture_single_frame_def io_defs capture_ok_def split: sum.splits)

lemma capture_flag:
  "is_detecting (snd (capture_single_frame env index path w)) = is_detecting w"
  by (auto simp: capture_single_frame_def io_defs split: sum.splits)

lemma capture_files:
  "files (snd (capture_single_frame env index path w)) =
     (if capture_ok env index path \<and> cv_imwrite env path = Inr True
      then insert path (files w) else files w)"
  by (auto simp: capture_single_frame_def io_defs capture_ok_def split: sum.splits)

lemma capture_trace:
  "\<exists>evs. trace (snd (capture_single_frame env index path w)) = trace w @ evs
         \<and> list_all capture_event evs"
  by (auto simp: capture_single_frame_def io_defs split: sum.splits)

subsection \<open>The functions that read the detector's output\<close>

lemma emitsQ_ret: "emitsQ P (retQ x)"
  by (simp add: emitsQ_def retQ_def)

lemma emitsQ_print: "P (Print m) \<Longrightarrow> emitsQ P (printQ m)"
  by (simp add: emitsQ_def printQ_def)

lemma emitsQ_call: "P ev \<Longrightarrow> emitsQ P (callQ ev outcome)"
  by (simp add: emitsQ_def callQ_def)

lemma emitsQ_bind: "emitsQ P m \<Longrightarrow> (\<And>x. emitsQ P (f x)) \<Longrightarrow> emitsQ P (bindQ m f)"
  by (cases m; cases "snd m")
     (auto simp: emitsQ_def bindQ_def split: prod.splits sum.splits, metis fst_conv)

lemma emitsQ_try: "emitsQ P m \<Longrightarrow> (\<And>e. emitsQ P (h e)) \<Longrightarrow> emitsQ P (try_exceptQ m h)"
  by (cases m; cases "snd m")
     (auto simp: emitsQ_def try_exceptQ_def split: prod.splits sum.splits, metis fst_conv)

lemma emitsQ_mono: "emitsQ P q \<Longrightarrow> (\<And>e. P e \<Longrightarrow> Q e) \<Longrightarrow> emitsQ Q q"
  unfolding emitsQ_def by (simp add: list_all_iff)

lemmas emitsQ_intros = emitsQ_ret emitsQ_print emitsQ_call emitsQ_bind emitsQ_try

lemma with_ctime_emits: "emitsQ query_event (with_ctime env fs)"
  by (induction fs) (auto intro!: emitsQ_intros)

lemma max_by_ctime_emits: "emitsQ query_event (max_by_ctime env fs)"
  unfolding max_by_ctime_def
  by (intro emitsQ_bind with_ctime_emits) (simp add: emitsQ_def retQ_def split: list.splits)

lemma recent_of_emits: "emitsQ query_event (recent_of env fs)"
  by (induction fs) (auto intro!: emitsQ_intros)

lemma get_latest_exp_folder_emits: "emitsQ query_event (get_latest_exp_folder env)"
  unfolding get_latest_exp_folder_def Let_def
  by (auto intro!: emitsQ_intros recent_of_emits max_by_ctime_emits)

lemma get_saved_evidence_path_emits: "emitsQ query_event (get_saved_evidence_path env d)"
  unfolding get_saved_evidence_path_def Let_def
  by (auto intro!: emitsQ_intros max_by_ctime_emits)

lemma check_label_file_emits: "emitsQ query_event (check_label_file env d n)"
  unfolding check_label_file_def Let_def
  by (auto intro!: emitsQ_intros)

lemma check_label_files_emits: "emitsQ query_event (check_label_files env d ns)"
  by (induction ns) (auto intro!: emitsQ_intros check_label_file_emits split: option.splits)

lemma check_for_person_emits: "emitsQ query_event (check_for_person env d)"
  unfolding check_for_person_def Let_def
  by (auto intro!: emitsQ_intros check_label_files_emits)

subsection \<open>Actions that only add to the trace\<close>

lemma emits_ret: "emits P (ret x)"
  unfolding emits_def ret_def by (intro exI [of _ "Inr x"] exI [of _ "[]"]) simp

lemma emits_lift: "emits P (lift outcome)"
  unfolding emits_def lift_def by (intro exI [of _ outcome] exI [of _ "[]"]) simp

lemma emits_emit: "P ev \<Longrightarrow> emits P (emit ev)"
  unfolding emits_def emit_def by (intro exI [of _ "Inr ()"] exI [of _ "[ev]"]) simp

lemma emits_print: "P (Print m) \<Longrightarrow> emits P (print m)"
  by (simp add: print_def emits_emit)

lemma emits_call: "P ev \<Longrightarrow> emits P (call ev outcome)"
  unfolding emits_def call_def by (intro exI [of _ outcome] exI [of _ "[ev]"]) simp

lemma emits_query: "emitsQ P q \<Longrightarrow> emits P (query q)"
  unfolding emits_def query_def emitsQ_def
  by (intro exI [of _ "snd q"] exI [of _ "fst q"]) simp

lemma emits_bind:
  assumes "emits P m" and "\<And>x. emits P (f x)"
  shows "emits P (bind m f)"
proof -
  obtain r evs where m: "list_all P evs" "\<And>w. m w = (r, w\<lparr>trace := trace w @ evs\<rparr>)"
    using assms(1) unfolding emits_def by blast
  show ?thesis
  proof (cases r)
    case (Inl e)
    then have "\<And>w. bind m f w = (Inl e, w\<lparr>trace := trace w @ evs\<rparr>)"
      by (simp add: bind_def m(2))
    with m(1) show ?thesis unfolding emits_def by blast
  next
    case (Inr x)
    obtain r' evs' where f: "list_all P evs'"
        "\<And>w. f x w = (r', w\<lparr>trace := trace w @ evs'\<rparr>)"
      using assms(2) [of x] unfolding emits_def by blast
    have "\<And>w. bind m f w = (r', w\<lparr>trace := trace w @ (evs @ evs')\<rparr>)"
      by (simp add: bind_def m(2) Inr f(2))
    moreover have "list_all P (evs @ evs')" using m(1) f(1) by simp
    ultimately show ?thesis unfolding emits_def by blast
  qed
qed

lemma emits_try_except:
  assumes "emits P m" and "\<And>e. emits P (h e)"
  shows "emits P (try_except m h)"
proof -
  obtain r evs where m: "list_all P evs" "\<And>w. m w = (r, w\<lparr>trace := trace w @ evs\<rparr>)"
    using assms(1) unfolding emits_def by blast
  show ?thesis
  proof (cases r)
    case (Inr x)
    then have "\<And>w. try_except m h w = (Inr x, w\<lparr>trace := trace w @ evs\<rparr>)"
      by (simp add: try_except_def m(2))
    with m(1) show ?thesis unfolding emits_def by blast
  next
    case (Inl e)
    obtain r' evs' where f: "list_all P evs'"
        "\<And>w. h e w = (r', w\<lparr>trace := trace w @ evs'\<rparr>)"
      using assms(2) [of e] unfolding emits_def by blast
    have "\<And>w. try_except m h w = (r', w\<lparr>trace := trace w @ (evs @ evs')\<rparr>)"
      by (simp add: try_except_def m(2) Inl f(2))
    moreover have "list_all P (evs @ evs')" using m(1) f(1) by simp
    ultimately show ?thesis unfolding emits_def by blast
  qed
qed

lemmas emits_intros = emits_ret emits_lift emits_emit emits_print emits_call emits_bind
  emits_try_except

lemma query_event_stage: "query_event e \<Longrightarrow> stage_event e"
  by (cases e rule: query_event.cases) simp_all

lemma detect_and_classify_emits: "emits stage_event (detect_and_classify env)"
  unfolding detect_and_classify_def
  by (auto intro!: emits_intros emits_query
        emitsQ_mono [OF get_latest_exp_folder_emits query_event_stage]
        emitsQ_mono [OF check_for_person_emits query_event_stage]
        emitsQ_mono [OF get_saved_evidence_path_emits query_event_stage]
      split: option.splits)

lemma handle_error_emits: "emits stage_event (handle_error e)"
  unfolding handle_error_def by (cases e) (auto intro!: emits_intros)

lemma try_block_emits: "emits stage_event (try_except (detect_and_classify env) handle_error)"
  by (intro emits_try_except detect_and_classify_emits handle_error_emits)

lemma try_block_result: "fst (try_except m handle_error w) = Inr ()"
  by (cases "m w"; cases "fst (m w)")
     (auto simp: try_except_def handle_error_def print_def emit_def split: exn.splits)

subsection \<open>The shape of a cycle\<close>

lemma cleanup_temp_run:
  "cleanup_temp env w =
     (if TEMP_IMAGE_PATH env \<in> files w then
        (case os_remove env (TEMP_IMAGE_PATH env) of
           Inl e \<Rightarrow>
             (Inl e, w\<lparr>trace := trace w @ [PathExists (TEMP_IMAGE_PATH env),
                                                Remove (TEMP_IMAGE_PATH env)]\<rparr>)
         | Inr u \<Rightarrow>
             (Inr (), w\<lparr>files := files w - {TEMP_IMAGE_PATH env},
                trace := trace w @ [PathExists (TEMP_IMAGE_PATH env),
                                    Remove (TEMP_IMAGE_PATH env),
                                    Print (MsgCleanedUp (TEMP_IMAGE_PATH env))]\<rparr>))
      else (Inr (), w\<lparr>trace := trace w @ [PathExists (TEMP_IMAGE_PATH env)]\<rparr>))"
  by (simp add: cleanup_temp_def io_defs split: sum.splits)

lemma capture_run:
  "capture_single_frame env CAMERA_INDEX (TEMP_IMAGE_PATH env) w
     = (Inr (capture_ok env CAMERA_INDEX (TEMP_IMAGE_PATH env)), after_capture env w)"
  using capture_result [of env CAMERA_INDEX "TEMP_IMAGE_PATH env" w]
  by (simp add: after_capture_def prod_eq_iff)

lemma try_block_run:
  "try_except (detect_and_classify env) handle_error (after_capture env w)
     = (Inr (), after_stages env w)"
  using try_block_result [of "detect_and_classify env" "after_capture env w"]
  by (simp add: after_stages_def prod_eq_iff)

lemma cleanup_run:
  assumes "capture_ok env CAMERA_INDEX (TEMP_IMAGE_PATH env)" and "\<not> removal_raises env w"
  shows "cleanup_temp env (after_stages env w) = (Inr (), after_cleanup env w)"
  using assms
  by (cases "os_remove env (TEMP_IMAGE_PATH env)")
     (simp_all add: after_cleanup_def cleanup_temp_run removal_raises_def)

lemma cleanup_raises:
  assumes "removal_raises env w"
  shows "\<exists>e. os_remove env (TEMP_IMAGE_PATH env) = Inl e
           \<and> cleanup_temp env (after_stages env w) = (Inl e, after_cleanup env w)"
  using assms
  by (cases "os_remove env (TEMP_IMAGE_PATH env)")
     (simp_all add: after_cleanup_def cleanup_temp_run removal_raises_def)

lemma cycle_not_captured:
  assumes "\<not> capture_ok env CAMERA_INDEX (TEMP_IMAGE_PATH env)"
  shows "start_yolo_detection env w =
     (Inr (), (after_capture env w)\<lparr>is_detecting := False,
         trace := trace (after_capture env w) @ [SetDetecting False, Print MsgNoFrame]\<rparr>)"
  using assms
  by (simp add: start_yolo_detection_def bind_def capture_run set_detecting_def print_def emit_def)

lemma cycle_captured:
  assumes "capture_ok env CAMERA_INDEX (TEMP_IMAGE_PATH env)" and "\<not> removal_raises env w"
  shows "start_yolo_detection env w =
     (Inr (), (after_cleanup env w)\<lparr>is_detecting := False,
         trace := trace (after_cleanup env w) @ [SetDetecting False, Print MsgStandby]\<rparr>)"
  using assms(1)
  by (simp add: start_yolo_detection_def bind_def try_finally_def capture_run try_block_run
        cleanup_run [OF assms] set_detecting_def print_def emit_def)

lemma cycle_crashed:
  assumes "removal_raises env w"
  shows "\<exists>e. os_remove env (TEMP_IMAGE_PATH env) = Inl e
           \<and> start_yolo_detection env w = (Inl e, after_cleanup env w)"
proof -
  obtain e where e: "os_remove env (TEMP_IMAGE_PATH env) = Inl e"
      "cleanup_temp env (after_stages env w) = (Inl e, after_cleanup env w)"
    using cleanup_raises [OF assms] by blast
  have "capture_ok env CAMERA_INDEX (TEMP_IMAGE_PATH env)"
    using assms by (simp add: removal_raises_def)
  then have "start_yolo_detection env w = (Inl e, after_cleanup env w)"
    by (simp add: start_yolo_detection_def bind_def try_finally_def capture_run try_block_run e(2))
  with e(1) show ?thesis by blast
qed

lemma not_captured_no_removal:
  "\<not> capture_ok env CAMERA_INDEX (TEMP_IMAGE_PATH env) \<Longrightarrow> \<not> removal_raises env w"
  by (simp add: removal_raises_def)

lemma after_stages_frame:
  "\<exists>evs. after_stages env w = (after_capture env w)\<lparr>trace := trace (after_capture env w) @ evs\<rparr>
         \<and> list_all stage_event evs"
proof -
  obtain r evs where "list_all stage_event evs"
    "\<And>w. try_except (detect_and_classify env) handle_error w = (r, w\<lparr>trace := trace w @ evs\<rparr>)"
    using try_block_emits [of env] unfolding emits_def by blast
  then show ?thesis unfolding after_stages_def by (intro exI [of _ evs]) simp
qed

lemma capture_event_quiet:
  "capture_event e \<Longrightarrow> \<not> is_launch e \<and> \<not> is_alert e \<and> \<not> is_flag e"
  by (cases e rule: capture_event.cases) simp_all

lemma new_events_append: "trace w' = trace w @ evs \<Longrightarrow> new_events w w' = evs"
  by (simp add: new_events_def)

section \<open>The capture never raises\<close>

text \<open>
  Claim C10. \<open>capture_single_frame\<close> returns a boolean for every device index, every
  destination path, every world and every answer of the camera library: it never
  raises. The boolean is \<open>capture_ok\<close>, and it is \<open>False\<close> as soon as the conversion of
  the index, the opening of the device, the read of the frame or the write of the image
  raises.
\<close>

theorem capture_single_frame_total:
  "\<exists>b w'. capture_single_frame env index path w = (Inr b, w')
      \<and> b = capture_ok env index path
      \<and> (((\<exists>e. py_int index = Inl e)
           \<or> (\<exists>n e. py_int index = Inr n \<and> cv_VideoCapture env n = Inl e)
           \<or> (\<exists>e. cv_read env = Inl e)
           \<or> (\<exists>e. cv_imwrite env path = Inl e)) \<longrightarrow> b = False)"
proof -
  have "capture_single_frame env index path w
          = (Inr (capture_ok env index path), snd (capture_single_frame env index path w))"
    using capture_result [of env index path w] by (simp add: prod_eq_iff)
  moreover have "((\<exists>e. py_int index = Inl e)
           \<or> (\<exists>n e. py_int index = Inr n \<and> cv_VideoCapture env n = Inl e)
           \<or> (\<exists>e. cv_read env = Inl e)
           \<or> (\<exists>e. cv_imwrite env path = Inl e)) \<longrightarrow> capture_ok env index path = False"
    by (auto simp: capture_ok_def split: sum.splits)
  ultimately show ?thesis by blast
qed

theorem capture_single_frame_total_witness:
  "cv_read (env_person\<lparr>cv_read := Inl RuntimeError\<rparr>) = Inl RuntimeError
   \<and> (\<exists>w'. capture_single_frame (env_person\<lparr>cv_read := Inl RuntimeError\<rparr>)
              CAMERA_INDEX ''/tmp/frame.jpg'' world_idle = (Inr False, w'))"
  using capture_single_frame_total [of "env_person\<lparr>cv_read := Inl RuntimeError\<rparr>"
          CAMERA_INDEX "''/tmp/frame.jpg''" world_idle]
  by auto

section \<open>A failed capture ends the cycle\<close>

text \<open>
  Claim C5. If \<open>capture_single_frame\<close> reports failure (by C10 this covers a device
  that cannot be opened, a failed read and every exception), then \<open>start_yolo_detection\<close>
  returns normally, the detector process is never launched, no alert line is printed,
  and \<open>is_detecting\<close> is \<open>False\<close> afterwards: the next trigger is accepted.
\<close>

theorem capture_failure_aborts:
  assumes "fst (capture_single_frame env CAMERA_INDEX (TEMP_IMAGE_PATH env) w) = Inr False"
  shows "\<exists>w'. start_yolo_detection env w = (Inr (), w')
           \<and> \<not> is_detecting w'
           \<and> \<not> list_ex is_launch (new_events w w')
           \<and> \<not> list_ex is_alert (new_events w w')"
proof -
  from assms have nok: "\<not> capture_ok env CAMERA_INDEX (TEMP_IMAGE_PATH env)"
    by (simp add: capture_result)
  obtain evs where evs: "trace (after_capture env w) = trace w @ evs" "list_all capture_event evs"
    using capture_trace [of env CAMERA_INDEX "TEMP_IMAGE_PATH env" w]
    unfolding after_capture_def by blast
  let ?w' = "(after_capture env w)\<lparr>is_detecting := False,
         trace := trace (after_capture env w) @ [SetDetecting False, Print MsgNoFrame]\<rparr>"
  have run: "start_yolo_detection env w = (Inr (), ?w')"
    by (rule cycle_not_captured [OF nok])
  have "new_events w ?w' = evs @ [SetDetecting False, Print MsgNoFrame]"
    by (rule new_events_append) (simp add: evs(1))
  moreover have "\<not> list_ex is_launch evs" "\<not> list_ex is_alert evs"
    using evs(2) capture_event_quiet by (auto simp: list_all_iff list_ex_iff)
  ultimately have "\<not> list_ex is_launch (new_events w ?w')" "\<not> list_ex is_alert (new_events w ?w')"
    by simp_all
  with run show ?thesis by (intro exI [of _ ?w']) simp
qed

theorem capture_failure_aborts_witness:
  "fst (capture_single_frame (env_person\<lparr>cv_VideoCapture := (\<lambda>n. Inr False)\<rparr>) CAMERA_INDEX
         (TEMP_IMAGE_PATH (env_person\<lparr>cv_VideoCapture := (\<lambda>n. Inr False)\<rparr>))
         (world_idle\<lparr>is_detecting := True\<rparr>)) = Inr False
   \<and> (\<exists>w'. start_yolo_detection (env_person\<lparr>cv_VideoCapture := (\<lambda>n. Inr False)\<rparr>)
               (world_idle\<lparr>is_detecting := True\<rparr>) = (Inr (), w')
           \<and> \<not> is_detecting w'
           \<and> \<not> list_ex is_launch (new_events (world_idle\<lparr>is_detecting := True\<rparr>) w')
           \<and> \<not> list_ex is_alert (new_events (world_idle\<lparr>is_detecting := True\<rparr>) w'))"
proof -
  let ?env = "env_person\<lparr>cv_VideoCapture := (\<lambda>n. Inr False)\<rparr>"
  let ?w = "world_idle\<lparr>is_detecting := True\<rparr>"
  have "\<not> capture_ok ?env CAMERA_INDEX (TEMP_IMAGE_PATH ?env)"
    by (simp add: capture_ok_def split: sum.splits)
  then have h: "fst (capture_single_frame ?env CAMERA_INDEX (TEMP_IMAGE_PATH ?env) ?w) = Inr False"
    by (simp add: capture_result)
  from capture_failure_aborts [OF h] h show ?thesis by blast
qed

section \<open>An error of the cleanup leaves the orchestrator\<close>

text \<open>Every error of the stages is caught: the \<open>try\<close> block with its handlers returns
  normally (\<open>try_block_result\<close>). The cycle as a whole returns normally unless it reaches
  \<open>os.remove\<close> and that call raises; then the flag keeps the value it had.\<close>

lemma cycle_returns_iff:
  "fst (start_yolo_detection env w) = Inr () \<longleftrightarrow> \<not> removal_raises env w"
proof (cases "removal_raises env w")
  case True
  from cycle_crashed [OF True] show ?thesis using True by auto
next
  case False
  then show ?thesis
    by (cases "capture_ok env CAMERA_INDEX (TEMP_IMAGE_PATH env)")
       (simp_all add: cycle_captured cycle_not_captured)
qed

lemma after_stages_flag: "is_detecting (after_stages env w) = is_detecting w"
  using after_stages_frame [of env w] capture_flag [of env CAMERA_INDEX "TEMP_IMAGE_PATH env" w]
  by (auto simp: after_capture_def)

lemma after_cleanup_flag: "is_detecting (after_cleanup env w) = is_detecting w"
  using after_stages_flag [of env w]
  by (simp add: after_cleanup_def cleanup_temp_run split: sum.splits)

lemma cycle_flag_after:
  "is_detecting (snd (start_yolo_detection env w)) = (removal_raises env w \<and> is_detecting w)"
proof (cases "removal_raises env w")
  case True
  from cycle_crashed [OF True] show ?thesis using True by (auto simp: after_cleanup_flag)
next
  case False
  then show ?thesis
    by (cases "capture_ok env CAMERA_INDEX (TEMP_IMAGE_PATH env)")
       (simp_all add: cycle_captured cycle_not_captured)
qed

text \<open>
  Claim C8. The claim holds for the errors of the capture, of the launch of and the wait
  for the detector, of the search for the output folder, of the inspection of the
  labels and of the search for the crop: all are caught. It does not hold for the
  cleanup: \<open>os.remove\<close> stands in the \<open>finally\<close> block with no handler around it. When the
  image cannot be removed, the \<open>OSError\<close> leaves \<open>start_yolo_detection\<close> and \<open>on_message\<close>,
  the assignment that resets \<open>is_detecting\<close> is skipped, the image stays on disk, and
  the next trigger finds the flag set and is ignored.
\<close>

theorem removal_error_escapes:
  "fst (start_yolo_detection env_locked (world_idle\<lparr>is_detecting := True\<rparr>)) = Inl OSError
   \<and> fst (on_message env_locked trigger world_idle) = Inl OSError
   \<and> is_detecting (snd (on_message env_locked trigger world_idle))
   \<and> files (snd (on_message env_locked trigger world_idle)) = {''/opt/yolov5/temp_capture.jpg''}
   \<and> last (trace (snd (on_message env_locked trigger world_idle)))
        = Remove ''/opt/yolov5/temp_capture.jpg''
   \<and> SetDetecting False \<notin> set (trace (snd (on_message env_locked trigger world_idle)))
   \<and> on_message env_locked trigger (snd (on_message env_locked trigger world_idle))
       = (Inr (), (snd (on_message env_locked trigger world_idle))\<lparr>trace :=
            trace (snd (on_message env_locked trigger world_idle))
              @ [Print (MsgReceived AI_TRIGGER_TOPIC ''ACTIVATE''), Print MsgAlreadyRunning]\<rparr>)"
  by (simp add: eval_defs on_message_def trigger_def env_locked_def env_person_def world_idle_def)

section \<open>The temporary image\<close>

lemma capture_event_stage_or_write: "capture_event e \<Longrightarrow> \<not> is_flag e \<and> (\<forall>p. e \<noteq> PathExists p) \<and> (\<forall>p. e \<noteq> Remove p)"
  by (cases e rule: capture_event.cases) simp_all

lemma stage_event_no_flag: "stage_event e \<Longrightarrow> \<not> is_flag e"
  by (cases e rule: stage_event.cases) simp_all

lemma after_stages_files: "files (after_stages env w) = files (after_capture env w)"
  using after_stages_frame [of env w] by auto

lemma after_cleanup_files:
  "files (after_cleanup env w) =
     (if TEMP_IMAGE_PATH env \<in> files (after_stages env w)
         \<and> isl (os_remove env (TEMP_IMAGE_PATH env))
      then files (after_stages env w)
      else files (after_stages env w) - {TEMP_IMAGE_PATH env})"
  by (auto simp: after_cleanup_def cleanup_temp_run split: sum.splits)

text \<open>
  Claim C4, as amended. After a cycle that returns normally and whose capture succeeded,
  the temporary image is not on disk, whatever the later stages did: the \<open>finally\<close>
  block removes it. A cycle whose capture failed returns before the \<open>try\<close> statement: it
  writes no image and runs no cleanup, and leaves the files as they were. So after a
  cycle that returns normally the image is on disk exactly when the capture failed and
  the image was there before; from a disk without it, it is absent after every such
  outcome. Within a cycle only the capture can put it there, and it stays until the
  cleanup.
\<close>

theorem temp_image_after_cycle:
  "(fst (start_yolo_detection env w) = Inr () \<longrightarrow>
      files (snd (start_yolo_detection env w)) =
        (if fst (capture_single_frame env CAMERA_INDEX (TEMP_IMAGE_PATH env) w) = Inr True
         then files w - {TEMP_IMAGE_PATH env} else files w))
   \<and> files (after_capture env w) - {TEMP_IMAGE_PATH env} = files w - {TEMP_IMAGE_PATH env}
   \<and> files (after_stages env w) = files (after_capture env w)"
proof -
  have c: "files (after_capture env w) =
      (if capture_ok env CAMERA_INDEX (TEMP_IMAGE_PATH env)
          \<and> cv_imwrite env (TEMP_IMAGE_PATH env) = Inr True
       then insert (TEMP_IMAGE_PATH env) (files w) else files w)"
    unfolding after_capture_def by (rule capture_files)
  have rest: "files (after_capture env w) - {TEMP_IMAGE_PATH env} = files w - {TEMP_IMAGE_PATH env}"
      "files (after_stages env w) = files (after_capture env w)"
    by (auto simp: after_stages_files c)
  have "files (snd (start_yolo_detection env w)) =
        (if fst (capture_single_frame env CAMERA_INDEX (TEMP_IMAGE_PATH env) w) = Inr True
         then files w - {TEMP_IMAGE_PATH env} else files w)"
    if ret: "fst (start_yolo_detection env w) = Inr ()"
  proof -
    from ret have nr: "\<not> removal_raises env w" by (simp add: cycle_returns_iff)
    show ?thesis
    proof (cases "capture_ok env CAMERA_INDEX (TEMP_IMAGE_PATH env)")
      case True
      have "files (after_cleanup env w) = files (after_stages env w) - {TEMP_IMAGE_PATH env}"
        using nr True by (auto simp: after_cleanup_files removal_raises_def)
      then show ?thesis
        unfolding cycle_captured [OF True nr]
        using True by (auto simp: capture_result after_stages_files c)
    next
      case False
      then show ?thesis
        unfolding cycle_not_captured [OF False] by (auto simp: capture_result c)
    qed
  qed
  with rest show ?thesis by blast
qed

lemma capture_ok_env_person: "capture_ok env_person CAMERA_INDEX (TEMP_IMAGE_PATH env_person)"
  by (simp add: capture_ok_def env_person_def CAMERA_INDEX_def py_int_def strip_def
        is_space_def is_digit_def)

lemma no_removal_error_env_person: "\<not> removal_raises env_person w"
  by (simp add: removal_raises_def env_person_def)

theorem temp_image_after_cycle_witness:
  "fst (start_yolo_detection env_person (world_idle\<lparr>is_detecting := True\<rparr>)) = Inr ()
   \<and> files (snd (start_yolo_detection env_person (world_idle\<lparr>is_detecting := True\<rparr>))) = {}
   \<and> files (after_capture env_person (world_idle\<lparr>is_detecting := True\<rparr>))
       = {''/opt/yolov5/temp_capture.jpg''}"
proof -
  have ret: "fst (start_yolo_detection env_person (world_idle\<lparr>is_detecting := True\<rparr>)) = Inr ()"
    by (simp add: cycle_returns_iff no_removal_error_env_person)
  have "files (after_capture env_person (world_idle\<lparr>is_detecting := True\<rparr>))
       = {''/opt/yolov5/temp_capture.jpg''}"
    unfolding after_capture_def capture_files using capture_ok_env_person
    by (simp add: env_person_def world_idle_def TEMP_IMAGE_PATH_def path_join_def)
  then show ?thesis
    using temp_image_after_cycle [of env_person "world_idle\<lparr>is_detecting := True\<rparr>"]
      capture_ok_env_person ret
    by (simp add: capture_result world_idle_def)
qed

text \<open>The claim as stated fails: with a stale image on disk and the camera busy, the
  cycle ends with the image still there, and no removal was attempted.\<close>

theorem temp_image_survives_failed_capture:
  "fst (capture_single_frame env_busy CAMERA_INDEX (TEMP_IMAGE_PATH env_busy) world_stale)
     = Inr False
   \<and> TEMP_IMAGE_PATH env_busy \<in> files (snd (start_yolo_detection env_busy world_stale))
   \<and> Remove (TEMP_IMAGE_PATH env_busy)
       \<notin> set (new_events world_stale (snd (start_yolo_detection env_busy world_stale)))"
proof -
  have nok: "\<not> capture_ok env_busy CAMERA_INDEX (TEMP_IMAGE_PATH env_busy)"
    by (simp add: capture_ok_def env_busy_def split: sum.splits)
  obtain evs where evs: "trace (after_capture env_busy world_stale) = trace world_stale @ evs"
      "list_all capture_event evs"
    using capture_trace [of env_busy CAMERA_INDEX "TEMP_IMAGE_PATH env_busy" world_stale]
    unfolding after_capture_def by blast
  have f: "files (after_capture env_busy world_stale) = files world_stale"
    unfolding after_capture_def capture_files using nok by simp
  have n: "new_events world_stale (snd (start_yolo_detection env_busy world_stale))
        = evs @ [SetDetecting False, Print MsgNoFrame]"
    unfolding cycle_not_captured [OF nok] by (rule new_events_append) (simp add: evs(1))
  have "Remove (TEMP_IMAGE_PATH env_busy) \<notin> set evs"
    using evs(2) capture_event_stage_or_write by (auto simp: list_all_iff)
  with n f nok show ?thesis
    unfolding cycle_not_captured [OF nok] by (simp add: capture_result world_stale_def)
qed

section \<open>The flag is released last\<close>

lemma split_at_flag:
  assumes "list_all (\<lambda>e. \<not> is_flag e) pre"
  shows "takeWhile (\<lambda>e. \<not> is_flag e) (pre @ SetDetecting b # post) = pre"
    and "dropWhile (\<lambda>e. \<not> is_flag e) (pre @ SetDetecting b # post) = SetDetecting b # post"
  using assms by (simp_all add: list_all_iff takeWhile_append2 dropWhile_append2)

lemma capture_events_of_cycle:
  "\<exists>evs. trace (after_capture env w) = trace w @ evs \<and> list_all capture_event evs"
  unfolding after_capture_def by (rule capture_trace)

lemma cycle_events_not_captured:
  assumes "\<not> capture_ok env CAMERA_INDEX (TEMP_IMAGE_PATH env)"
  shows "\<exists>pre. list_all capture_event pre
           \<and> new_events w (snd (start_yolo_detection env w))
               = pre @ [SetDetecting False, Print MsgNoFrame]"
proof -
  obtain evs where evs: "trace (after_capture env w) = trace w @ evs" "list_all capture_event evs"
    using capture_events_of_cycle by blast
  have "new_events w (snd (start_yolo_detection env w)) = evs @ [SetDetecting False, Print MsgNoFrame]"
    unfolding cycle_not_captured [OF assms] by (rule new_events_append) (simp add: evs(1))
  with evs(2) show ?thesis by blast
qed

lemma cycle_events_captured:
  assumes "capture_ok env CAMERA_INDEX (TEMP_IMAGE_PATH env)" and "\<not> removal_raises env w"
  shows "\<exists>pre post. list_all (\<lambda>e. \<not> is_flag e) pre \<and> list_all (\<lambda>e. \<not> is_flag e) post
           \<and> new_events w (snd (start_yolo_detection env w))
               = pre @ PathExists (TEMP_IMAGE_PATH env) # post @ [SetDetecting False, Print MsgStandby]"
proof -
  obtain evs where evs: "trace (after_capture env w) = trace w @ evs" "list_all capture_event evs"
    using capture_events_of_cycle by blast
  obtain evs' where evs': "after_stages env w
        = (after_capture env w)\<lparr>trace := trace (after_capture env w) @ evs'\<rparr>"
      "list_all stage_event evs'"
    using after_stages_frame by blast
  define post where "post = (if TEMP_IMAGE_PATH env \<in> files (after_stages env w)
     then [Remove (TEMP_IMAGE_PATH env), Print (MsgCleanedUp (TEMP_IMAGE_PATH env))] else [])"
  have t: "trace (after_cleanup env w)
      = trace w @ (evs @ evs') @ PathExists (TEMP_IMAGE_PATH env) # post"
    using evs(1) evs'(1) assms
    by (cases "os_remove env (TEMP_IMAGE_PATH env)")
       (auto simp: after_cleanup_def cleanup_temp_run post_def removal_raises_def)
  have "new_events w (snd (start_yolo_detection env w))
      = (evs @ evs') @ PathExists (TEMP_IMAGE_PATH env) # post @ [SetDetecting False, Print MsgStandby]"
    unfolding cycle_captured [OF assms] by (rule new_events_append) (simp add: t)
  moreover have "list_all (\<lambda>e. \<not> is_flag e) (evs @ evs')"
    using evs(2) evs'(2) capture_event_quiet stage_event_no_flag by (auto simp: list_all_iff)
  moreover have "list_all (\<lambda>e. \<not> is_flag e) post" by (simp add: post_def)
  ultimately show ?thesis by blast
qed

text \<open>
  Claim C7, as amended. In the events of every cycle that returns normally, the first
  assignment to \<open>is_detecting\<close> is the reset to \<open>False\<close>, followed by nothing but the
  closing print. In such a cycle whose capture succeeded, the cleanup of the temporary
  image stands before that reset, and the flag still has its value from the start of
  the cycle when the cleanup is over, so a trigger that arrives during the cleanup
  meets the flag set. A cycle whose capture failed resets the flag without any cleanup
  step.
\<close>

theorem flag_reset_last:
  "fst (start_yolo_detection env w) = Inr () \<longrightarrow>
     reset_last (new_events w (snd (start_yolo_detection env w)))
     \<and> (if fst (capture_single_frame env CAMERA_INDEX (TEMP_IMAGE_PATH env) w) = Inr True
        then reset_after_cleanup (TEMP_IMAGE_PATH env)
               (new_events w (snd (start_yolo_detection env w)))
             \<and> is_detecting (after_stages env w) = is_detecting w
             \<and> is_detecting (after_cleanup env w) = is_detecting w
        else \<not> reset_after_cleanup (TEMP_IMAGE_PATH env)
                 (new_events w (snd (start_yolo_detection env w))))"
proof
  assume "fst (start_yolo_detection env w) = Inr ()"
  then have nr: "\<not> removal_raises env w" by (simp add: cycle_returns_iff)
  show "reset_last (new_events w (snd (start_yolo_detection env w)))
     \<and> (if fst (capture_single_frame env CAMERA_INDEX (TEMP_IMAGE_PATH env) w) = Inr True
        then reset_after_cleanup (TEMP_IMAGE_PATH env)
               (new_events w (snd (start_yolo_detection env w)))
             \<and> is_detecting (after_stages env w) = is_detecting w
             \<and> is_detecting (after_cleanup env w) = is_detecting w
        else \<not> reset_after_cleanup (TEMP_IMAGE_PATH env)
                 (new_events w (snd (start_yolo_detection env w))))"
  proof (cases "capture_ok env CAMERA_INDEX (TEMP_IMAGE_PATH env)")
    case True
    obtain pre post where p: "list_all (\<lambda>e. \<not> is_flag e) pre" "list_all (\<lambda>e. \<not> is_flag e) post"
       "new_events w (snd (start_yolo_detection env w))
          = pre @ PathExists (TEMP_IMAGE_PATH env) # post @ [SetDetecting False, Print MsgStandby]"
      using cycle_events_captured [OF True nr] by blast
    let ?pre = "pre @ PathExists (TEMP_IMAGE_PATH env) # post"
    have q: "list_all (\<lambda>e. \<not> is_flag e) ?pre" using p(1,2) by simp
    have n: "new_events w (snd (start_yolo_detection env w)) = ?pre @ SetDetecting False # [Print MsgStandby]"
      using p(3) by simp
    have "reset_after_cleanup (TEMP_IMAGE_PATH env) (new_events w (snd (start_yolo_detection env w)))"
      unfolding n reset_after_cleanup_def reset_last_def split_at_flag [OF q] by simp
    then show ?thesis
      using True by (auto simp: capture_result reset_after_cleanup_def after_stages_flag after_cleanup_flag)
  next
    case False
    obtain pre where p: "list_all capture_event pre"
       "new_events w (snd (start_yolo_detection env w)) = pre @ SetDetecting False # [Print MsgNoFrame]"
      using cycle_events_not_captured [OF False] by auto
    have q: "list_all (\<lambda>e. \<not> is_flag e) pre"
      using p(1) capture_event_quiet by (auto simp: list_all_iff)
    have "PathExists (TEMP_IMAGE_PATH env) \<notin> set pre"
      using p(1) capture_event_stage_or_write by (auto simp: list_all_iff)
    then have "reset_last (new_events w (snd (start_yolo_detection env w)))"
        "\<not> reset_after_cleanup (TEMP_IMAGE_PATH env) (new_events w (snd (start_yolo_detection env w)))"
      unfolding p(2) reset_after_cleanup_def reset_last_def split_at_flag [OF q] by simp_all
    then show ?thesis
      using False by (auto simp: capture_result)
  qed
qed

theorem flag_reset_last_witness:
  "fst (start_yolo_detection env_person (world_idle\<lparr>is_detecting := True\<rparr>)) = Inr ()
   \<and> reset_after_cleanup (TEMP_IMAGE_PATH env_person)
        (new_events (world_idle\<lparr>is_detecting := True\<rparr>)
           (snd (start_yolo_detection env_person (world_idle\<lparr>is_detecting := True\<rparr>))))
   \<and> is_detecting (after_cleanup env_person (world_idle\<lparr>is_detecting := True\<rparr>)) = True"
proof -
  have ret: "fst (start_yolo_detection env_person (world_idle\<lparr>is_detecting := True\<rparr>)) = Inr ()"
    by (simp add: cycle_returns_iff no_removal_error_env_person)
  show ?thesis
    using flag_reset_last [of env_person "world_idle\<lparr>is_detecting := True\<rparr>"]
      capture_ok_env_person ret
    by (auto simp: capture_result)
qed

text \<open>The claim as stated fails: when the camera is busy, the flag is reset although
  the cycle made no cleanup step at all.\<close>

theorem flag_reset_without_cleanup:
  "fst (capture_single_frame env_busy CAMERA_INDEX (TEMP_IMAGE_PATH env_busy) world_stale)
     = Inr False
   \<and> SetDetecting False
       \<in> set (new_events world_stale (snd (start_yolo_detection env_busy world_stale)))
   \<and> \<not> reset_after_cleanup (TEMP_IMAGE_PATH env_busy)
         (new_events world_stale (snd (start_yolo_detection env_busy world_stale)))
   \<and> PathExists (TEMP_IMAGE_PATH env_busy)
       \<notin> set (new_events world_stale (snd (start_yolo_detection env_busy world_stale)))"
proof -
  have nok: "\<not> capture_ok env_busy CAMERA_INDEX (TEMP_IMAGE_PATH env_busy)"
    by (simp add: capture_ok_def env_busy_def split: sum.splits)
  obtain pre where p: "list_all capture_event pre"
     "new_events world_stale (snd (start_yolo_detection env_busy world_stale))
        = pre @ SetDetecting False # [Print MsgNoFrame]"
    using cycle_events_not_captured [OF nok] by auto
  have q: "list_all (\<lambda>e. \<not> is_flag e) pre"
    using p(1) capture_event_quiet by (auto simp: list_all_iff)
  have r: "PathExists (TEMP_IMAGE_PATH env_busy) \<notin> set pre"
    using p(1) capture_event_stage_or_write by (auto simp: list_all_iff)
  show ?thesis
    using nok r unfolding p(2) reset_after_cleanup_def split_at_flag [OF q]
    by (simp add: capture_result)
qed

section \<open>Inspecting the label files\<close>

lemma check_label_file_other:
  "\<not> endswith n ''.txt'' \<Longrightarrow> check_label_file env d n = ([], Inr None)"
  by (simp add: check_label_file_def retQ_def)

lemma check_label_files_filter:
  "check_label_files env d names
     = check_label_files env d (filter (\<lambda>n. endswith n ''.txt'') names)"
  by (induction names) (simp_all add: check_label_file_other bindQ_def)

lemma check_label_files_none:
  "list_all (\<lambda>n. \<not> endswith n ''.txt'') names \<Longrightarrow> check_label_files env d names = ([], Inr False)"
  by (induction names) (simp_all add: check_label_file_other bindQ_def retQ_def)

text \<open>
  Claim C9. \<open>check_for_person\<close> looks only at the names that end in \<open>.txt\<close>: the loop over
  the listing gives the same events and the same result as the loop over the \<open>.txt\<close>
  names alone, whatever the other files hold. When the labels folder exists and no name
  of its listing ends in \<open>.txt\<close>, no size is asked for, no file is read, and the result
  is \<open>False\<close>.
\<close>

theorem check_for_person_txt_only:
  "check_label_files env d names
     = check_label_files env d (filter (\<lambda>n. endswith n ''.txt'') names)
   \<and> (path_exists env (path_join folder ''labels'')
        \<and> listdir env (path_join folder ''labels'') = Inr names
        \<and> list_all (\<lambda>n. \<not> endswith n ''.txt'') names
      \<longrightarrow> check_for_person env folder
            = ([PathExists (path_join folder ''labels''), Listdir (path_join folder ''labels'')],
               Inr False))"
  using check_label_files_filter [of env d names]
  by (auto simp: check_for_person_def Let_def q_defs check_label_files_none)

theorem check_for_person_txt_only_witness:
  "check_for_person (env_person\<lparr>listdir := (\<lambda>p. Inr [''temp_capture.jpg'', ''notes.txt.bak''])\<rparr>)
       ''/opt/yolov5/runs/detect/exp2''
     = ([PathExists ''/opt/yolov5/runs/detect/exp2/labels'',
         Listdir ''/opt/yolov5/runs/detect/exp2/labels''], Inr False)
   \<and> read_text (env_person\<lparr>listdir := (\<lambda>p. Inr [''temp_capture.jpg'', ''notes.txt.bak''])\<rparr>)
        ''/opt/yolov5/runs/detect/exp2/labels/temp_capture.jpg'' = Inr ''0 10 20 30 40''"
  using check_for_person_txt_only
    [of "env_person\<lparr>listdir := (\<lambda>p. Inr [''temp_capture.jpg'', ''notes.txt.bak''])\<rparr>"
        "''/opt/yolov5/runs/detect/exp2/labels''" "[''temp_capture.jpg'', ''notes.txt.bak'']"
        "''/opt/yolov5/runs/detect/exp2''"]
  by (simp add: env_person_def path_join_def endswith_def)

text \<open>
  Claim C2. The two examples of the claim hold: a file with the content
  \<open>0 10 20 30 40\<close> gives \<open>True\<close>, an empty file gives \<open>False\<close> and no error. The
  equivalence does not: the pattern \<open>\b0\b\<close> is searched anywhere in the text, and
  a \<open>0\<close> before a decimal point is such a match. For a label file that reports one dog,
  \<open>16 0.5 0.5 0.25 0.25\<close>, no line starts with the token \<open>0\<close>, and \<open>check_for_person\<close>
  returns \<open>True\<close>.
\<close>

theorem check_for_person_matches_inside_line:
  "snd (check_for_person env_dog ''/opt/yolov5/runs/detect/exp2'') = Inr True
   \<and> \<not> class_at_line_start PERSON_CLASS_ID ''16 0.5 0.5 0.25 0.25''
   \<and> snd (check_for_person env_person ''/opt/yolov5/runs/detect/exp2'') = Inr True
   \<and> class_at_line_start PERSON_CLASS_ID ''0 10 20 30 40''
   \<and> snd (check_for_person env_empty_label ''/opt/yolov5/runs/detect/exp2'') = Inr False"
  by (simp add: check_for_person_def check_label_file_def Let_def q_defs env_dog_def
        env_empty_label_def env_person_def path_join_def endswith_def PERSON_CLASS_ID_def
        class_at_line_start_def is_space_def is_word_char_def next_is_word_def)

section \<open>The exit status of the detector\<close>

lemma with_ctime_status: "with_ctime (env\<lparr>proc_wait := s\<rparr>) fs = with_ctime env fs"
  by (induction fs) simp_all

lemma recent_of_status: "recent_of (env\<lparr>proc_wait := s\<rparr>) fs = recent_of env fs"
  by (induction fs) simp_all

lemma check_label_files_status:
  "check_label_files (env\<lparr>proc_wait := s\<rparr>) d ns = check_label_files env d ns"
  by (induction ns) (simp_all add: check_label_file_def cong: if_cong)

lemma capture_status:
  "capture_single_frame (env\<lparr>proc_wait := s\<rparr>) i p = capture_single_frame env i p"
  by (simp add: capture_single_frame_def imwrite_def cong: if_cong)

lemma get_latest_exp_folder_status:
  "get_latest_exp_folder (env\<lparr>proc_wait := s\<rparr>) = get_latest_exp_folder env"
  by (simp add: get_latest_exp_folder_def max_by_ctime_def with_ctime_status recent_of_status
        cong: if_cong)

lemma check_for_person_status:
  "check_for_person (env\<lparr>proc_wait := s\<rparr>) d = check_for_person env d"
  by (simp add: check_for_person_def check_label_files_status cong: if_cong)

lemma get_saved_evidence_path_status:
  "get_saved_evidence_path (env\<lparr>proc_wait := s\<rparr>) d = get_saved_evidence_path env d"
  by (simp add: get_saved_evidence_path_def max_by_ctime_def with_ctime_status cong: if_cong)

lemma bind_call_dropped:
  "bind (call ev (Inr x)) (\<lambda>_. k) = (\<lambda>w. k (w\<lparr>trace := trace w @ [ev]\<rparr>))"
  by (simp add: bind_def call_def)

lemma detect_and_classify_status:
  "detect_and_classify (env\<lparr>proc_wait := Inr n\<rparr>) = detect_and_classify env"
  if "proc_wait env = Inr 0"
  using that
  by (simp add: detect_and_classify_def YOLO_COMMAND_def TEMP_IMAGE_PATH_def
        get_latest_exp_folder_status check_for_person_status get_saved_evidence_path_status
        bind_call_dropped cong: if_cong option.case_cong)

text \<open>The value of \<open>process.wait()\<close> has no influence on the cycle.\<close>

lemma exit_status_ignored:
  assumes "proc_wait env = Inr 0"
  shows "start_yolo_detection (env\<lparr>proc_wait := Inr n\<rparr>) = start_yolo_detection env"
  by (simp add: start_yolo_detection_def detect_and_classify_status [OF assms] capture_status
        cleanup_temp_def remove_image_def TEMP_IMAGE_PATH_def cong: if_cong)

text \<open>A launch that fails is caught: nothing is located, inspected or alerted.\<close>

lemma launch_failure_aborts:
  assumes "popen env (YOLO_COMMAND env) = Inl e"
  shows "try_except (detect_and_classify env) handle_error w
     = (Inr (), w\<lparr>trace := trace w @ [Print (MsgExecuting (YOLO_COMMAND env)),
          Popen (YOLO_COMMAND env),
          Print (if e = CalledProcessError then MsgSubprocessError e else MsgUnhandled e)]\<rparr>)"
  using assms by (cases e) (simp_all add: detect_and_classify_def handle_error_def io_defs)

text \<open>
  Claim C3. The claim holds for a launch that fails (\<open>launch_failure_aborts\<close>). For a
  non-zero exit status the code does not do what the claim says: \<open>process.wait()\<close> does
  not raise, its value is dropped, and the handler for \<open>CalledProcessError\<close> is never
  entered. When the detector exits with status 1 and an old output folder reports a
  person, the cycle prints that the process completed successfully, locates that
  folder, inspects its labels and sends the alert.
\<close>

theorem nonzero_exit_not_detected:
  "proc_wait env_crash = Inr 1
   \<and> new_events (world_idle\<lparr>is_detecting := True\<rparr>)
        (snd (start_yolo_detection env_crash (world_idle\<lparr>is_detecting := True\<rparr>))) =
     [Print (MsgAttemptCapture ''1''), VideoCapture 1, Sleep 1500, CapRead, CapRelease,
      Imwrite ''/opt/yolov5/temp_capture.jpg'',
      Print (MsgFrameSaved ''/opt/yolov5/temp_capture.jpg''),
      Print (MsgExecuting (YOLO_COMMAND env_crash)),
      Popen (YOLO_COMMAND env_crash),
      Print MsgWaiting, ProcWait, Print MsgCompleted, Sleep 500,
      Glob ''/opt/yolov5/runs/detect/exp*'',
      Getctime ''/opt/yolov5/runs/detect/exp'', TimeTime,
      Getctime ''/opt/yolov5/runs/detect/exp'',
      Print (MsgAnalyzing ''/opt/yolov5/runs/detect/exp''),
      PathExists ''/opt/yolov5/runs/detect/exp/labels'',
      Listdir ''/opt/yolov5/runs/detect/exp/labels'',
      Getsize ''/opt/yolov5/runs/detect/exp/labels/temp_capture.txt'',
      ReadFile ''/opt/yolov5/runs/detect/exp/labels/temp_capture.txt'',
      PathExists ''/opt/yolov5/runs/detect/exp/crops/person'',
      Glob ''/opt/yolov5/runs/detect/exp/crops/person/*.jpg'',
      Getctime ''/opt/yolov5/runs/detect/exp/crops/person/temp_capture.jpg'',
      Print MsgPersonDetected,
      Print (MsgEvidenceSaved ''/opt/yolov5/runs/detect/exp/crops/person/temp_capture.jpg''),
      Print MsgSendingAlert,
      PathExists ''/opt/yolov5/temp_capture.jpg'', Remove ''/opt/yolov5/temp_capture.jpg'',
      Print (MsgCleanedUp ''/opt/yolov5/temp_capture.jpg''),
      SetDetecting False, Print MsgStandby]"
  by (simp add: eval_defs env_crash_def env_person_def world_idle_def new_events_def)

section \<open>Locating the output folder\<close>

lemma snd_bindQ:
  "snd (bindQ m f) = (case snd m of Inl e \<Rightarrow> Inl e | Inr x \<Rightarrow> snd (f x))"
  by (cases m; cases "snd m") (auto simp: bindQ_def split: prod.splits)

lemma snd_try_exceptQ:
  "snd (try_exceptQ m h) = (case snd m of Inl e \<Rightarrow> snd (h e) | Inr x \<Rightarrow> Inr x)"
  by (cases m; cases "snd m") (auto simp: try_exceptQ_def split: prod.splits)

lemma snd_simple [simp]:
  "snd (retQ x) = Inr x" "snd (callQ ev outcome) = outcome" "snd (printQ m) = Inr ()"
  by (simp_all add: q_defs)

lemma with_ctime_ok:
  "(\<forall>f\<in>set fs. \<exists>c. getctime env f = Inr c)
   \<Longrightarrow> snd (with_ctime env fs) = Inr (map (\<lambda>f. (f, ctime_of env f)) fs)"
  by (induction fs) (auto simp: snd_bindQ ctime_of_def)

lemma with_ctime_fail:
  "f \<in> set fs \<Longrightarrow> getctime env f = Inl e \<Longrightarrow> \<exists>e'. snd (with_ctime env fs) = Inl e'"
  by (induction fs) (auto simp: snd_bindQ split: sum.splits)

lemma recent_of_ok:
  "(\<forall>f\<in>set fs. \<exists>c. getctime env f = Inr c)
   \<Longrightarrow> snd (recent_of env fs) = Inr (filter (recent env) fs)"
  by (induction fs) (auto simp: snd_bindQ ctime_of_def recent_def)

lemma recent_of_fail:
  "f \<in> set fs \<Longrightarrow> getctime env f = Inl e \<Longrightarrow> \<exists>e'. snd (recent_of env fs) = Inl e'"
  by (induction fs) (auto simp: snd_bindQ split: sum.splits)

lemma max_from_spec:
  "max_from (f0, ct f0) (map (\<lambda>f. (f, ct f)) fs) \<in> set (f0 # fs)
   \<and> (\<forall>h\<in>set (f0 # fs). ct h \<le> ct (max_from (f0, ct f0) (map (\<lambda>f. (f, ct f)) fs)))"
proof (induction fs arbitrary: f0)
  case Nil
  show ?case by simp
next
  case (Cons x xs)
  show ?case
  proof (cases "ct x > ct f0")
    case True
    with Cons.IH [of x] show ?thesis by fastforce
  next
    case False
    with Cons.IH [of f0] show ?thesis by fastforce
  qed
qed

lemma max_by_ctime_ok:
  assumes "fs \<noteq> []" and "\<forall>f\<in>set fs. \<exists>c. getctime env f = Inr c"
  shows "\<exists>g. snd (max_by_ctime env fs) = Inr g \<and> g \<in> set fs
              \<and> (\<forall>h\<in>set fs. ctime_of env h \<le> ctime_of env g)"
proof -
  obtain f0 rest where fs: "fs = f0 # rest" using assms(1) by (cases fs) auto
  have "snd (max_by_ctime env fs)
      = Inr (max_from (f0, ctime_of env f0) (map (\<lambda>f. (f, ctime_of env f)) rest))"
    unfolding max_by_ctime_def snd_bindQ with_ctime_ok [OF assms(2)] by (simp add: fs)
  with max_from_spec [of f0 "ctime_of env" rest] show ?thesis unfolding fs by blast
qed

lemma get_latest_exp_folder_result:
  "snd (get_latest_exp_folder env) =
     (case glob env (exp_pattern env) of
        Inl e \<Rightarrow> Inr None
      | Inr fs \<Rightarrow>
          if fs = [] then Inr None
          else (case snd (recent_of env fs) of
                  Inl e \<Rightarrow> Inr None
                | Inr rs \<Rightarrow> (case snd (max_by_ctime env (if rs = [] then fs else rs)) of
                               Inl e \<Rightarrow> Inr None
                             | Inr f \<Rightarrow> Inr (Some f))))"
  by (auto simp: get_latest_exp_folder_def exp_pattern_def Let_def snd_try_exceptQ snd_bindQ
      split: sum.splits)

lemma get_latest_exp_folder_found:
  assumes "glob env (exp_pattern env) = Inr fs" and "fs \<noteq> []"
    and "\<forall>f\<in>set fs. \<exists>c. getctime env f = Inr c"
  shows "\<exists>g. snd (get_latest_exp_folder env) = Inr (Some g) \<and> g \<in> set fs
            \<and> (\<forall>h\<in>set fs. ctime_of env h \<le> ctime_of env g)
            \<and> (list_ex (recent env) fs \<longrightarrow> recent env g)"
proof (cases "filter (recent env) fs = []")
  case True
  obtain g where g: "snd (max_by_ctime env fs) = Inr g" "g \<in> set fs"
      "\<forall>h\<in>set fs. ctime_of env h \<le> ctime_of env g"
    using max_by_ctime_ok [OF assms(2,3)] by blast
  have "\<not> list_ex (recent env) fs" using True by (auto simp: list_ex_iff filter_empty_conv)
  with g show ?thesis
    by (simp add: get_latest_exp_folder_result assms(1,2) recent_of_ok [OF assms(3)] True)
next
  case False
  let ?rs = "filter (recent env) fs"
  have ok: "\<forall>f\<in>set ?rs. \<exists>c. getctime env f = Inr c" using assms(3) by simp
  obtain g where g: "snd (max_by_ctime env ?rs) = Inr g" "g \<in> set ?rs"
      "\<forall>h\<in>set ?rs. ctime_of env h \<le> ctime_of env g"
    using max_by_ctime_ok [OF False ok] by blast
  have "ctime_of env h \<le> ctime_of env g" if "h \<in> set fs" for h
  proof (cases "recent env h")
    case True
    with that g(3) show ?thesis by simp
  next
    case False
    with g(2) show ?thesis by (simp add: recent_def)
  qed
  with g show ?thesis
    by (simp add: get_latest_exp_folder_result assms(1,2) recent_of_ok [OF assms(3)] False)
qed

lemma get_latest_exp_folder_raised:
  assumes "glob env (exp_pattern env) = Inr fs" and "f \<in> set fs" and "getctime env f = Inl e"
  shows "snd (get_latest_exp_folder env) = Inr None"
proof -
  have "fs \<noteq> []" using assms(2) by auto
  moreover obtain e' where "snd (recent_of env fs) = Inl e'"
    using recent_of_fail [OF assms(2,3)] by blast
  ultimately show ?thesis by (simp add: get_latest_exp_folder_result assms(1))
qed

text \<open>
  Claim C6, as amended. \<open>get_latest_exp_folder\<close> never raises. When the glob returns
  candidates and the creation time of each can be read, it returns one of them, created
  no earlier than any other; if some candidate was created within the 30 seconds before
  the clock reading, the one returned is among those, and otherwise it is the newest
  regardless of age. It returns none when there is no candidate, and also when the glob
  or the reading of a creation time raises: the exception is caught and logged.
\<close>

theorem get_latest_exp_folder_spec:
  "(\<exists>r. snd (get_latest_exp_folder env) = Inr r)
   \<and> (snd (get_latest_exp_folder env) = Inr None \<longleftrightarrow>
        (\<exists>e. glob env (exp_pattern env) = Inl e)
        \<or> glob env (exp_pattern env) = Inr []
        \<or> (\<exists>fs f e. glob env (exp_pattern env) = Inr fs \<and> f \<in> set fs
               \<and> getctime env f = Inl e))
   \<and> (\<forall>g. snd (get_latest_exp_folder env) = Inr (Some g) \<longrightarrow>
        (\<exists>fs. glob env (exp_pattern env) = Inr fs \<and> g \<in> set fs
           \<and> (\<forall>h\<in>set fs. ctime_of env h \<le> ctime_of env g)
           \<and> (list_ex (recent env) fs \<longrightarrow> recent env g)))"
proof (cases "glob env (exp_pattern env)")
  case (Inl e)
  then show ?thesis by (simp add: get_latest_exp_folder_result)
next
  case (Inr fs)
  show ?thesis
  proof (cases "fs = []")
    case True
    with Inr show ?thesis by (simp add: get_latest_exp_folder_result)
  next
    case False
    show ?thesis
    proof (cases "\<forall>f\<in>set fs. \<exists>c. getctime env f = Inr c")
      case True
      obtain g where g: "snd (get_latest_exp_folder env) = Inr (Some g)" "g \<in> set fs"
          "\<forall>h\<in>set fs. ctime_of env h \<le> ctime_of env g"
          "list_ex (recent env) fs \<longrightarrow> recent env g"
        using get_latest_exp_folder_found [OF Inr False True] by blast
      have "\<not> (\<exists>f e. f \<in> set fs \<and> getctime env f = Inl e)" using True by fastforce
      with g Inr False show ?thesis by auto
    next
      case no: False
      then obtain f e where f: "f \<in> set fs" "getctime env f = Inl e"
        by (metis sum.exhaust)
      have "snd (get_latest_exp_folder env) = Inr None"
        by (rule get_latest_exp_folder_raised [OF Inr f])
      with Inr f show ?thesis by auto
    qed
  qed
qed

text \<open>The example of the claim: of a folder created 45 seconds ago and one created
  5 seconds ago, the second is returned.\<close>

theorem get_latest_exp_folder_spec_witness:
  "getctime env_person ''/opt/yolov5/runs/detect/exp'' = Inr (time_time env_person - 45)
   \<and> getctime env_person ''/opt/yolov5/runs/detect/exp2'' = Inr (time_time env_person - 5)
   \<and> glob env_person (exp_pattern env_person)
        = Inr [''/opt/yolov5/runs/detect/exp'', ''/opt/yolov5/runs/detect/exp2'']
   \<and> snd (get_latest_exp_folder env_person) = Inr (Some ''/opt/yolov5/runs/detect/exp2'')
   \<and> recent env_person ''/opt/yolov5/runs/detect/exp2''"
proof -
  have e: "snd (get_latest_exp_folder env_person) = Inr (Some ''/opt/yolov5/runs/detect/exp2'')"
    by (simp add: get_latest_exp_folder_def max_by_ctime_def q_defs env_person_def path_join_def)
  have g: "glob env_person (exp_pattern env_person)
        = Inr [''/opt/yolov5/runs/detect/exp'', ''/opt/yolov5/runs/detect/exp2'']"
    by (simp add: env_person_def exp_pattern_def path_join_def)
  have r: "list_ex (recent env_person) [''/opt/yolov5/runs/detect/exp'', ''/opt/yolov5/runs/detect/exp2'']"
    by (simp add: recent_def ctime_of_def env_person_def)
  from get_latest_exp_folder_spec [of env_person] e g r
  have "recent env_person ''/opt/yolov5/runs/detect/exp2''" by auto
  with e g show ?thesis by (simp add: env_person_def)
qed

text \<open>The claim as stated fails: two candidates exist, the reading of their creation
  time raises, and the function returns none.\<close>

theorem get_latest_exp_folder_none_with_candidates:
  "glob env_vanished (exp_pattern env_vanished)
     = Inr [''/opt/yolov5/runs/detect/exp'', ''/opt/yolov5/runs/detect/exp2'']
   \<and> get_latest_exp_folder env_vanished
     = ([Glob ''/opt/yolov5/runs/detect/exp*'', Getctime ''/opt/yolov5/runs/detect/exp'',
         Print (MsgFolderError OSError)], Inr None)"
  by (simp add: get_latest_exp_folder_def q_defs env_vanished_def env_person_def
        exp_pattern_def path_join_def)

section \<open>Single flight\<close>

lemma on_message_accept:
  "on_message env m =
     bind (accept_trigger m) (\<lambda>go. if go then start_yolo_detection env else ret ())"
proof
  fix w
  show "on_message env m w =
     bind (accept_trigger m) (\<lambda>go. if go then start_yolo_detection env else ret ()) w"
    by (cases "payload_decode m")
       (simp_all add: on_message_def accept_trigger_def bind_def lift_def print_def emit_def
          set_detecting_def ret_def)
qed

lemma accept_trigger_run:
  "accept_trigger m w =
     (case payload_decode m of
        Inl e \<Rightarrow> (Inl e, w)
      | Inr p \<Rightarrow>
          if topic m = AI_TRIGGER_TOPIC \<and> p = ''ACTIVATE'' then
            if \<not> is_detecting w then
              (Inr True, w\<lparr>is_detecting := True,
                 trace := trace w @ [Print (MsgReceived (topic m) p), Print MsgTriggerReceived,
                                     SetDetecting True]\<rparr>)
            else
              (Inr False, w\<lparr>trace := trace w @ [Print (MsgReceived (topic m) p),
                                                  Print MsgAlreadyRunning]\<rparr>)
          else (Inr False, w\<lparr>trace := trace w @ [Print (MsgReceived (topic m) p)]\<rparr>))"
  by (cases "payload_decode m")
     (simp_all add: accept_trigger_def bind_def lift_def print_def emit_def set_detecting_def
        ret_def)

lemma run_cycle_is_start_yolo_detection:
  "run_cycle 4 env Capturing w = snd (start_yolo_detection env w)"
proof (cases "capture_ok env CAMERA_INDEX (TEMP_IMAGE_PATH env)")
  case ok: True
  show ?thesis
  proof (cases "removal_raises env w")
    case True
    obtain e where e: "os_remove env (TEMP_IMAGE_PATH env) = Inl e"
        "cleanup_temp env (after_stages env w) = (Inl e, after_cleanup env w)"
      using cleanup_raises [OF True] by blast
    obtain e' where "start_yolo_detection env w = (Inl e', after_cleanup env w)"
      using cycle_crashed [OF True] by blast
    with ok e(2) show ?thesis
      by (simp add: numeral_eq_Suc capture_run try_block_run)
  next
    case False
    with ok show ?thesis
      by (simp add: numeral_eq_Suc cycle_captured capture_run try_block_run cleanup_run
            bind_def set_detecting_def print_def emit_def)
  qed
next
  case False
  then show ?thesis
    by (simp add: numeral_eq_Suc cycle_not_captured capture_run
          bind_def set_detecting_def print_def emit_def)
qed

lemma try_block_frame:
  "\<exists>evs. snd (try_except (detect_and_classify env) handle_error w) = w\<lparr>trace := trace w @ evs\<rparr>"
proof -
  obtain r evs where
    "\<And>w. try_except (detect_and_classify env) handle_error w = (r, w\<lparr>trace := trace w @ evs\<rparr>)"
    using try_block_emits [of env] unfolding emits_def by blast
  then show ?thesis by (intro exI [of _ evs]) simp
qed

lemma advance_flag:
  assumes "advance env ph w = (nxt, w')"
  shows "is_detecting w' = (if nxt = None then False else is_detecting w)"
proof (cases ph)
  case Capturing
  with assms capture_flag [of env CAMERA_INDEX "TEMP_IMAGE_PATH env" w] show ?thesis
    by (auto split: prod.splits)
next
  case Aborting
  with assms show ?thesis by (auto simp: bind_def set_detecting_def print_def emit_def)
next
  case Detecting
  with assms try_block_frame [of env w] show ?thesis by auto
next
  case CleaningUp
  with assms show ?thesis
    by (auto simp: cleanup_temp_run split: if_splits sum.splits prod.splits)
next
  case Releasing
  with assms show ?thesis by (auto simp: bind_def set_detecting_def print_def emit_def)
next
  case Crashed
  with assms show ?thesis by auto
qed

lemma advance_agree:
  assumes "is_detecting w = is_detecting v" and "files w = files v"
  shows "fst (advance env ph w) = fst (advance env ph v)
       \<and> is_detecting (snd (advance env ph w)) = is_detecting (snd (advance env ph v))
       \<and> files (snd (advance env ph w)) = files (snd (advance env ph v))"
proof (cases ph)
  case Capturing
  have "is_detecting (after_capture env w) = is_detecting (after_capture env v)"
       "files (after_capture env w) = files (after_capture env v)"
    using assms by (simp_all add: after_capture_def capture_flag capture_files)
  then show ?thesis by (simp add: Capturing capture_run)
next
  case Aborting
  with assms show ?thesis by (simp add: bind_def set_detecting_def print_def emit_def)
next
  case Detecting
  obtain r evs where
    "\<And>w. try_except (detect_and_classify env) handle_error w = (r, w\<lparr>trace := trace w @ evs\<rparr>)"
    using try_block_emits [of env] unfolding emits_def by blast
  with assms show ?thesis by (simp add: Detecting)
next
  case CleaningUp
  with assms show ?thesis by (simp add: cleanup_temp_run split: sum.splits)
next
  case Releasing
  with assms show ?thesis by (simp add: bind_def set_detecting_def print_def emit_def)
next
  case Crashed
  with assms show ?thesis by simp
qed

lemma step_single_flight: "single_flight s \<Longrightarrow> single_flight (step s occ)"
proof (cases occ)
  case (Deliver env m)
  assume "single_flight s"
  then show ?thesis
    by (cases "payload_decode m")
       (auto simp: Deliver single_flight_def accept_trigger_run split: prod.splits if_splits)
next
  case (Advance i)
  assume sf: "single_flight s"
  show ?thesis
  proof (cases "i < length (cycles s)")
    case False
    with sf show ?thesis by (simp add: Advance)
  next
    case True
    with sf obtain env ph where c: "cycles s = [(env, ph)]" and i: "i = 0"
      unfolding single_flight_def by (cases "cycles s") auto
    obtain nxt w' where a: "advance env ph (wld s) = (nxt, w')" by (cases "advance env ph (wld s)")
    from advance_flag [OF a] sf c show ?thesis
      by (cases nxt) (simp_all add: Advance i c a single_flight_def)
  qed
qed

lemma run_single_flight: "single_flight s \<Longrightarrow> single_flight (run s os)"
  unfolding run_def by (induction os arbitrary: s) (simp_all add: step_single_flight)

lemma step_agree: "agree s t \<Longrightarrow> agree (step s occ) (step t occ)"
proof (cases occ)
  case (Deliver env m)
  assume "agree s t"
  then show ?thesis
    by (cases "payload_decode m")
       (auto simp: Deliver agree_def accept_trigger_run split: prod.splits if_splits)
next
  case (Advance i)
  assume ag: "agree s t"
  show ?thesis
  proof (cases "i < length (cycles s)")
    case False
    with ag show ?thesis by (simp add: Advance agree_def)
  next
    case True
    obtain env ph where c: "cycles s ! i = (env, ph)" by (cases "cycles s ! i")
    from ag have "is_detecting (wld s) = is_detecting (wld t)" "files (wld s) = files (wld t)"
      by (simp_all add: agree_def)
    from advance_agree [OF this, of env ph] ag True c show ?thesis
      by (cases "advance env ph (wld s)"; cases "advance env ph (wld t)")
         (auto simp: Advance agree_def split: option.splits)
  qed
qed

lemma run_agree: "agree s t \<Longrightarrow> agree (run s os) (run t os)"
  unfolding run_def by (induction os arbitrary: s t) (simp_all add: step_agree)

text \<open>
  Claim C1. Start from an idle service and let trigger deliveries and the steps of
  running cycles follow each other in any order. At every moment at most one cycle is
  active (started, and the flag not released), and the flag is set exactly while one
  is. A trigger delivered while the flag
  is set is answered by \<open>on_message\<close> with two log lines and nothing else: no cycle is
  started, none is recorded for later (the list of cycles is unchanged), and whatever
  happens afterwards, the system runs the same cycles as if the trigger had never
  arrived.
\<close>

theorem single_flight_holds:
  "(\<not> is_detecting w \<longrightarrow> single_flight (run (idle w) os))
   \<and> (is_detecting (wld s) \<and> topic m = AI_TRIGGER_TOPIC \<and> payload_decode m = Inr ''ACTIVATE''
      \<longrightarrow> on_message env m (wld s)
            = (Inr (), (wld s)\<lparr>trace := trace (wld s)
                 @ [Print (MsgReceived (topic m) ''ACTIVATE''), Print MsgAlreadyRunning]\<rparr>)
        \<and> step s (Deliver env m)
            = \<lparr>wld = (wld s)\<lparr>trace := trace (wld s)
                 @ [Print (MsgReceived (topic m) ''ACTIVATE''), Print MsgAlreadyRunning]\<rparr>,
               cycles = cycles s\<rparr>
        \<and> agree (run (step s (Deliver env m)) os') (run s os'))"
proof (intro conjI impI)
  assume "\<not> is_detecting w"
  then have "single_flight (idle w)" by (simp add: single_flight_def idle_def)
  then show "single_flight (run (idle w) os)" by (rule run_single_flight)
next
  assume a: "is_detecting (wld s) \<and> topic m = AI_TRIGGER_TOPIC \<and> payload_decode m = Inr ''ACTIVATE''"
  then show "on_message env m (wld s)
            = (Inr (), (wld s)\<lparr>trace := trace (wld s)
                 @ [Print (MsgReceived (topic m) ''ACTIVATE''), Print MsgAlreadyRunning]\<rparr>)"
    by (simp add: on_message_accept bind_def accept_trigger_run ret_def)
  from a show st: "step s (Deliver env m)
            = \<lparr>wld = (wld s)\<lparr>trace := trace (wld s)
                 @ [Print (MsgReceived (topic m) ''ACTIVATE''), Print MsgAlreadyRunning]\<rparr>,
               cycles = cycles s\<rparr>"
    by (simp add: accept_trigger_run)
  have "agree (step s (Deliver env m)) s" unfolding st by (simp add: agree_def)
  then show "agree (run (step s (Deliver env m)) os') (run s os')" by (rule run_agree)
qed

theorem single_flight_holds_witness:
  "cycles (run (idle world_idle) [Deliver env_person trigger, Deliver env_busy trigger])
     = [(env_person, Capturing)]
   \<and> single_flight (run (idle world_idle)
        [Deliver env_person trigger, Deliver env_busy trigger, Advance 0, Deliver env_busy trigger])
   \<and> step (run (idle world_idle) [Deliver env_person trigger]) (Deliver env_busy trigger)
     = \<lparr>wld = \<lparr>is_detecting = True, files = {}, trace =
           [Print (MsgReceived AI_TRIGGER_TOPIC ''ACTIVATE''), Print MsgTriggerReceived,
            SetDetecting True,
            Print (MsgReceived AI_TRIGGER_TOPIC ''ACTIVATE''), Print MsgAlreadyRunning]\<rparr>,
         cycles = [(env_person, Capturing)]\<rparr>"
proof -
  have s1: "run (idle world_idle) [Deliver env_person trigger]
      = \<lparr>wld = \<lparr>is_detecting = True, files = {}, trace =
           [Print (MsgReceived AI_TRIGGER_TOPIC ''ACTIVATE''), Print MsgTriggerReceived,
            SetDetecting True]\<rparr>, cycles = [(env_person, Capturing)]\<rparr>"
    by (simp add: run_def idle_def world_idle_def trigger_def accept_trigger_run)
  have h: "is_detecting (wld (run (idle world_idle) [Deliver env_person trigger]))
      \<and> topic trigger = AI_TRIGGER_TOPIC \<and> payload_decode trigger = Inr ''ACTIVATE''"
    unfolding s1 by (simp add: trigger_def)
  have n: "\<not> is_detecting world_idle" by (simp add: world_idle_def)
  note t = single_flight_holds [of world_idle
      "[Deliver env_person trigger, Deliver env_busy trigger, Advance 0, Deliver env_busy trigger]"
      "run (idle world_idle) [Deliver env_person trigger]" trigger env_busy "[]"]
  from t n h have "single_flight (run (idle world_idle)
        [Deliver env_person trigger, Deliver env_busy trigger, Advance 0, Deliver env_busy trigger])"
    and "step (run (idle world_idle) [Deliver env_person trigger]) (Deliver env_busy trigger)
      = \<lparr>wld = (wld (run (idle world_idle) [Deliver env_person trigger]))\<lparr>trace :=
             trace (wld (run (idle world_idle) [Deliver env_person trigger]))
               @ [Print (MsgReceived (topic trigger) ''ACTIVATE''), Print MsgAlreadyRunning]\<rparr>,
          cycles = cycles (run (idle world_idle) [Deliver env_person trigger])\<rparr>"
    by blast+
  moreover have "run (idle world_idle) [Deliver env_person trigger, Deliver env_busy trigger]
      = step (run (idle world_idle) [Deliver env_person trigger]) (Deliver env_busy trigger)"
    by (simp add: run_def)
  ultimately show ?thesis
    by (simp add: s1) (simp add: trigger_def)
qed

end
